theory Spec2Isabelle
  imports Complex_Main "HOL-Library.Multiset" "HOL-Library.Product_Lexorder"
begin

section \<open>Python values\<close>

text \<open>
  A Python \<open>str\<close> is modelled as a \<open>string\<close> holding its UTF-8 bytes. The
  operations the modelled code applies to strings (equality, concatenation, emptiness,
  substring containment, splitting at an ASCII character) commute with the encoding.

  A float is a finite value (every double is a rational) or one of the three special
  values that \<open>json.loads\<close> accepts.
\<close>

datatype pyfloat = Fin rat | PosInf | NegInf | NaN

datatype json =
    JNull
  | JBool bool
  | JInt int
  | JFloat pyfloat
  | JStr string
  | JList "json list"
  | JDict "(string \<times> json) list"

text \<open>The exceptions that cross function boundaries in the modelled code.\<close>

datatype exn =
    NotFoundError string
  | RuntimeError string
  | ValueError string
  | OverflowError string
  | TypeError string
  | AttributeError string
  | OtherException string
  | KeyboardInterrupt

text \<open>
  \<open>except Exception\<close> catches every class above but \<open>KeyboardInterrupt\<close>, which
  derives from \<open>BaseException\<close> only.
\<close>

fun is_Exception :: "exn \<Rightarrow> bool" where
  "is_Exception KeyboardInterrupt = False"
| "is_Exception _ = True"

definition digit_char :: "nat \<Rightarrow> char" where
  "digit_char d = char_of (48 + d)"

fun show_nat :: "nat \<Rightarrow> string" where
  "show_nat n = (if n < 10 then [digit_char n] else show_nat (n div 10) @ [digit_char (n mod 10)])"

declare show_nat.simps [simp del]

section \<open>The HTTP client (src/api/client.py)\<close>





















section \<open>Tasks and the task interleaver (src/api/fetcher.py)\<close>

text \<open>
  A monitoring task, the dict built by \<open>extract_monitoring_tasks\<close>. The type of the
  vehicle id is a parameter: the extractor copies whatever JSON value \<open>idMO\<close> holds, and
  the collector uses it as a dictionary key (\<open>Dict[int, float]\<close> in the source), where
  HOL equality stands for Python's key equality.
\<close>

record 'v task =
  pl_id :: string
  ts_id_mo :: 'v
  ts_reg_number :: json
  ts_name_mo :: json
  from_date :: json
  to_date :: json

text \<open>
  The dict \<open>by_vehicle\<close> is its key list in insertion order together with the table of
  values (the empty list where no key was inserted). One iteration of the grouping
  loop of \<open>_reorder_tasks_for_rate_limit\<close>:
\<close>

definition group_step ::
  "'v list \<times> ('v \<Rightarrow> 'v task list) \<Rightarrow> 'v task \<Rightarrow> 'v list \<times> ('v \<Rightarrow> 'v task list)"
where
  "group_step d task =
     (case d of (keys, by_vehicle) \<Rightarrow>
        let ts_id = ts_id_mo task;
            keys1 = (if ts_id \<notin> set keys then keys @ [ts_id] else keys);
            by_vehicle1 = (if ts_id \<notin> set keys then by_vehicle(ts_id := []) else by_vehicle)
        in (keys1, by_vehicle1(ts_id := by_vehicle1 ts_id @ [task])))"

text \<open>
  The body of \<open>for vid in vehicle_ids\<close>: \<open>by_vehicle[vid].pop(0)\<close> appended to
  \<open>result\<close> when the list is not empty.
\<close>

definition round_step :: "('v \<Rightarrow> 'a list) \<times> 'a list \<Rightarrow> 'v \<Rightarrow> ('v \<Rightarrow> 'a list) \<times> 'a list" where
  "round_step s vid =
     (case s of (by_vehicle, result) \<Rightarrow>
        (case by_vehicle vid of
           [] \<Rightarrow> (by_vehicle, result)
         | t # rest \<Rightarrow> (by_vehicle(vid := rest), result @ [t])))"

lemma round_step_length:
  "round_step (tab, res) v = (tab', res') \<Longrightarrow> length (tab' u) \<le> length (tab u)"
  by (auto simp: round_step_def split: list.splits)

lemma round_pass_length:
  "foldl round_step (tab, res) ids = (tab', res') \<Longrightarrow> length (tab' u) \<le> length (tab u)"
proof (induction ids arbitrary: tab res)
  case Nil
  then show ?case by simp
next
  case (Cons a ids)
  obtain tab1 res1 where s: "round_step (tab, res) a = (tab1, res1)"
    by (cases "round_step (tab, res) a")
  with Cons.prems have "foldl round_step (tab1, res1) ids = (tab', res')" by simp
  from Cons.IH[OF this] round_step_length[OF s] show ?case
    using le_trans by blast
qed

lemma round_pass_pops:
  "foldl round_step (tab, res) ids = (tab', res') \<Longrightarrow> u \<in> set ids \<Longrightarrow> tab u \<noteq> [] \<Longrightarrow>
   length (tab' u) < length (tab u)"
proof (induction ids arbitrary: tab res)
  case Nil
  then show ?case by simp
next
  case (Cons a ids)
  obtain tab1 res1 where s: "round_step (tab, res) a = (tab1, res1)"
    by (cases "round_step (tab, res) a")
  with Cons.prems have f: "foldl round_step (tab1, res1) ids = (tab', res')" by simp
  show ?case
  proof (cases "u = a")
    case True
    with s Cons.prems(3) have "length (tab1 u) < length (tab u)"
      by (auto simp: round_step_def split: list.splits)
    with round_pass_length[OF f, of u] show ?thesis by simp
  next
    case False
    with s have "tab1 u = tab u" by (auto simp: round_step_def split: list.splits)
    with Cons.IH[OF f] Cons.prems False show ?thesis by simp
  qed
qed

lemma sum_list_strict_decrease:
  "\<forall>x\<in>set xs. g x \<le> (f x :: nat) \<Longrightarrow> \<exists>x\<in>set xs. g x < f x \<Longrightarrow>
   sum_list (map g xs) < sum_list (map f xs)"
proof (induction xs)
  case Nil
  then show ?case by simp
next
  case (Cons a xs)
  have le: "sum_list (map g xs) \<le> sum_list (map f xs)"
    using Cons.prems(1) by (simp add: sum_list_mono)
  show ?case
  proof (cases "g a < f a")
    case True
    with le show ?thesis by simp
  next
    case False
    with Cons.prems have "\<exists>x\<in>set xs. g x < f x" "g a \<le> f a" by auto
    with Cons.IH Cons.prems(1) show ?thesis by simp
  qed
qed

lemma round_pass_sum_decrease:
  assumes "list_ex (\<lambda>v. tab v \<noteq> []) ids" and "(tab', res') = foldl round_step (tab, res) ids"
  shows "sum_list (map (\<lambda>v. length (tab' v)) ids) < sum_list (map (\<lambda>v. length (tab v)) ids)"
proof -
  from assms(2) have f: "foldl round_step (tab, res) ids = (tab', res')" by simp
  from assms(1) obtain u where u: "u \<in> set ids" "tab u \<noteq> []" by (auto simp: list_ex_iff)
  show ?thesis
    using round_pass_length[OF f] round_pass_pops[OF f u] u(1)
    by (intro sum_list_strict_decrease) auto
qed

text \<open>
  The loop \<open>while any(by_vehicle.values())\<close>. The keys of \<open>by_vehicle\<close> are
  \<open>vehicle_ids\<close> throughout: popping from a value never adds or removes a key.
\<close>

function interleave_loop :: "'v list \<Rightarrow> ('v \<Rightarrow> 'a list) \<Rightarrow> 'a list \<Rightarrow> 'a list" where
  "interleave_loop vehicle_ids by_vehicle result =
     (if list_ex (\<lambda>vid. by_vehicle vid \<noteq> []) vehicle_ids then
        (case foldl round_step (by_vehicle, result) vehicle_ids of
           (by_vehicle', result') \<Rightarrow> interleave_loop vehicle_ids by_vehicle' result')
      else result)"
  by pat_completeness auto
termination
proof (relation "measure (\<lambda>(ids, tab, res). sum_list (map (\<lambda>v. length (tab v)) ids))", goal_cases)
  case 1
  show ?case by simp
next
  case (2 vehicle_ids by_vehicle result x y)
  from round_pass_sum_decrease[OF 2(1) 2(2)] show ?case by simp
qed

declare interleave_loop.simps [simp del]

definition reorder_tasks_for_rate_limit :: "'v task list \<Rightarrow> 'v task list" where
  "reorder_tasks_for_rate_limit tasks =
     (if tasks = [] then tasks
      else (case foldl group_step ([], \<lambda>_. []) tasks of
              (vehicle_ids, by_vehicle) \<Rightarrow> interleave_loop vehicle_ids by_vehicle []))"

subsection \<open>The interleaving as the specification words it\<close>

text \<open>The distinct elements of a list in the order of their first appearance.\<close>

definition first_seen :: "'a list \<Rightarrow> 'a list" where
  "first_seen xs = rev (remdups (rev xs))"

text \<open>One group per vehicle id, in first-appearance order, each in the original order.\<close>

definition spec_groups :: "'v task list \<Rightarrow> 'v task list list" where
  "spec_groups tasks =
     map (\<lambda>v. filter (\<lambda>t. ts_id_mo t = v) tasks) (first_seen (map ts_id_mo tasks))"

lemma drop1_sum_decrease:
  assumes "\<not> list_all (\<lambda>g. g = []) gs"
  shows "sum_list (map (length \<circ> drop (Suc 0)) gs) < sum_list (map length gs)"
proof -
  from assms obtain g where "g \<in> set gs" "g \<noteq> []" by (auto simp: list_all_iff)
  then have "\<exists>x\<in>set gs. length (drop (Suc 0) x) < length x" by (intro bexI[of _ g]) auto
  then have "sum_list (map (\<lambda>x. length (drop (Suc 0) x)) gs) < sum_list (map length gs)"
    by (intro sum_list_strict_decrease) auto
  then show ?thesis by (simp add: comp_def)
qed

text \<open>
  Round robin: as long as a group is left non-empty, take the first task of each
  non-empty group, in the order of the groups, and go on with what is left.
\<close>

function spec_rounds :: "'a list list \<Rightarrow> 'a list" where
  "spec_rounds groups =
     (if list_all (\<lambda>g. g = []) groups then []
      else concat (map (take 1) groups) @ spec_rounds (map (drop 1) groups))"
  by pat_completeness auto
termination
  by (relation "measure (\<lambda>gs. sum_list (map length gs))") (auto simp: drop1_sum_decrease)

declare spec_rounds.simps [simp del]

definition interleave_spec :: "'v task list \<Rightarrow> 'v task list" where
  "interleave_spec tasks = spec_rounds (spec_groups tasks)"

text \<open>Six tasks of the vehicles A, B, A, C, A, C.\<close>

definition mk_task :: "string \<Rightarrow> 'v \<Rightarrow> 'v task" where
  "mk_task p v = \<lparr>pl_id = p, ts_id_mo = v, ts_reg_number = JNull, ts_name_mo = JNull,
                  from_date = JStr ''25.01.2026 08:00'', to_date = JStr ''26.01.2026 08:00''\<rparr>"

definition abc_tasks :: "string task list" where
  "abc_tasks = [mk_task ''p1'' ''A'', mk_task ''p2'' ''B'', mk_task ''p3'' ''A'',
                mk_task ''p4'' ''C'', mk_task ''p5'' ''A'', mk_task ''p6'' ''C'']"

section \<open>Naive datetimes and the parts of the \<open>datetime\<close> library that are used\<close>

text \<open>
  A naive \<open>datetime\<close> object, with the attributes Python gives it. The constructor
  admits only the values of \<open>valid_datetime\<close>.
\<close>

record datetime =
  year :: nat
  month :: nat
  day :: nat
  hour :: nat
  minute :: nat
  second :: nat
  microsecond :: nat

definition is_leap :: "nat \<Rightarrow> bool" where
  "is_leap y = (y mod 4 = 0 \<and> (y mod 100 \<noteq> 0 \<or> y mod 400 = 0))"

definition days_in_month :: "nat \<Rightarrow> nat \<Rightarrow> nat" where
  "days_in_month y m =
     (if m = 2 then (if is_leap y then 29 else 28)
      else if m = 4 \<or> m = 6 \<or> m = 9 \<or> m = 11 then 30 else 31)"

definition valid_date :: "datetime \<Rightarrow> bool" where
  "valid_date d =
     (1 \<le> year d \<and> year d \<le> 9999 \<and> 1 \<le> month d \<and> month d \<le> 12 \<and>
      1 \<le> day d \<and> day d \<le> days_in_month (year d) (month d))"

definition valid_datetime :: "datetime \<Rightarrow> bool" where
  "valid_datetime d =
     (valid_date d \<and> hour d < 24 \<and> minute d < 60 \<and> second d < 60 \<and> microsecond d < 1000000)"

text \<open>
  Python compares naive datetimes as the tuples of their attributes, from the year
  down to the microsecond.
\<close>

definition dt_key :: "datetime \<Rightarrow> nat \<times> nat \<times> nat \<times> nat \<times> nat \<times> nat \<times> nat" where
  "dt_key d = (year d, month d, day d, hour d, minute d, second d, microsecond d)"

definition dt_less :: "datetime \<Rightarrow> datetime \<Rightarrow> bool" where
  "dt_less a b = (dt_key a < dt_key b)"

definition dt_le :: "datetime \<Rightarrow> datetime \<Rightarrow> bool" where
  "dt_le a b = (dt_key a \<le> dt_key b)"

text \<open>\<open>max(a, b)\<close> and \<open>min(a, b)\<close> return the first argument unless the second beats it.\<close>

definition dt_max :: "datetime \<Rightarrow> datetime \<Rightarrow> datetime" where
  "dt_max a b = (if dt_less a b then b else a)"

definition dt_min :: "datetime \<Rightarrow> datetime \<Rightarrow> datetime" where
  "dt_min a b = (if dt_less b a then b else a)"

text \<open>
  \<open>dt + timedelta(days=1)\<close> and \<open>dt - timedelta(days=1)\<close>: the same time of day on the
  next and on the previous calendar day, \<open>OverflowError\<close> outside the years 1 to 9999.
\<close>

definition plus_one_day :: "datetime \<Rightarrow> exn + datetime" where
  "plus_one_day d =
     (if day d < days_in_month (year d) (month d) then Inr (d\<lparr>day := day d + 1\<rparr>)
      else if month d < 12 then Inr (d\<lparr>month := month d + 1, day := 1\<rparr>)
      else if year d < 9999 then Inr (d\<lparr>year := year d + 1, month := 1, day := 1\<rparr>)
      else Inl (OverflowError ''date value out of range''))"

definition minus_one_day :: "datetime \<Rightarrow> exn + datetime" where
  "minus_one_day d =
     (if 1 < day d then Inr (d\<lparr>day := day d - 1\<rparr>)
      else if 1 < month d then
        Inr (d\<lparr>month := month d - 1, day := days_in_month (year d) (month d - 1)\<rparr>)
      else if 1 < year d then Inr (d\<lparr>year := year d - 1, month := 12, day := 31\<rparr>)
      else Inl (OverflowError ''date value out of range''))"

subsection \<open>\<open>strftime\<close>\<close>

definition pad2 :: "nat \<Rightarrow> string" where
  "pad2 n = (if n < 10 then CHR ''0'' # show_nat n else show_nat n)"

text \<open>
  \<open>%Y\<close> is the year in decimal. Whether a year below 1000 is padded with zeros to four
  digits depends on the C library behind \<open>strftime\<close>; \<open>zero_pad\<close> says which.
\<close>

definition strftime_Y :: "bool \<Rightarrow> nat \<Rightarrow> string" where
  "strftime_Y zero_pad y =
     (if zero_pad then replicate (4 - length (show_nat y)) (CHR ''0'') @ show_nat y
      else show_nat y)"

subsection \<open>\<open>strptime\<close>\<close>

text \<open>
  \<open>strptime\<close> turns the format into a regular expression and takes the first match
  in the order of the alternatives. The directives used here, with the expressions of
  \<open>_strptime.py\<close>, on ASCII digits and ASCII whitespace:
  \<^item> \<open>%d\<close>: \<open>3[0-1]|[1-2]\d|0[1-9]|[1-9]| [1-9]\<close>
  \<^item> \<open>%m\<close>: \<open>1[0-2]|0[1-9]|[1-9]\<close>
  \<^item> \<open>%Y\<close>: \<open>\d\d\d\d\<close>
  \<^item> \<open>%H\<close>: \<open>2[0-3]|[0-1]\d|\d\<close>
  \<^item> \<open>%M\<close>: \<open>[0-5]\d|\d\<close>
  \<^item> \<open>%S\<close>: \<open>6[0-1]|[0-5]\d|\d\<close>
  \<^item> whitespace in the format: \<open>\s+\<close>
  A matcher returns every way to match a prefix of the text, best first, as the
  backtracking of the expression would try them.
\<close>

datatype fmt_item = Fd | Fm | FY | FH | FM | FS | Lit char | Ws

definition dig :: "char \<Rightarrow> nat option" where
  "dig c = (let n = (of_char c :: nat) in if 48 \<le> n \<and> n \<le> 57 then Some (n - 48) else None)"

fun two :: "(nat \<Rightarrow> nat \<Rightarrow> bool) \<Rightarrow> string \<Rightarrow> (nat \<times> string) list" where
  "two P (a # b # s) =
     (case (dig a, dig b) of
        (Some x, Some y) \<Rightarrow> if P x y then [(10 * x + y, s)] else []
      | _ \<Rightarrow> [])"
| "two P _ = []"

fun one :: "(nat \<Rightarrow> bool) \<Rightarrow> string \<Rightarrow> (nat \<times> string) list" where
  "one P (a # s) = (case dig a of Some x \<Rightarrow> if P x then [(x, s)] else [] | None \<Rightarrow> [])"
| "one P [] = []"

fun four :: "string \<Rightarrow> (nat \<times> string) list" where
  "four (a # b # c # d # s) =
     (case (dig a, dig b, dig c, dig d) of
        (Some w, Some x, Some y, Some z) \<Rightarrow> [(1000 * w + 100 * x + 10 * y + z, s)]
      | _ \<Rightarrow> [])"
| "four _ = []"

definition is_space :: "char \<Rightarrow> bool" where
  "is_space c = (let n = (of_char c :: nat) in n = 32 \<or> (9 \<le> n \<and> n \<le> 13) \<or> (28 \<le> n \<and> n \<le> 31))"

text \<open>\<open>\s+\<close>: the longest run of whitespace first, then every shorter one down to one character.\<close>

fun spaces :: "string \<Rightarrow> string list" where
  "spaces [] = []"
| "spaces (c # s) = (if is_space c then spaces s @ [s] else [])"

fun match_item :: "fmt_item \<Rightarrow> string \<Rightarrow> datetime \<Rightarrow> (datetime \<times> string) list" where
  "match_item Fd s acc =
     map (\<lambda>(v, r). (acc\<lparr>day := v\<rparr>, r))
       (two (\<lambda>x y. x = 3 \<and> y \<le> 1) s @ two (\<lambda>x y. 1 \<le> x \<and> x \<le> 2) s @
        two (\<lambda>x y. x = 0 \<and> 1 \<le> y) s @ one (\<lambda>x. 1 \<le> x) s @
        (case s of c # r \<Rightarrow> if c = CHR '' '' then one (\<lambda>x. 1 \<le> x) r else [] | [] \<Rightarrow> []))"
| "match_item Fm s acc =
     map (\<lambda>(v, r). (acc\<lparr>month := v\<rparr>, r))
       (two (\<lambda>x y. x = 1 \<and> y \<le> 2) s @ two (\<lambda>x y. x = 0 \<and> 1 \<le> y) s @ one (\<lambda>x. 1 \<le> x) s)"
| "match_item FY s acc = map (\<lambda>(v, r). (acc\<lparr>year := v\<rparr>, r)) (four s)"
| "match_item FH s acc =
     map (\<lambda>(v, r). (acc\<lparr>hour := v\<rparr>, r))
       (two (\<lambda>x y. x = 2 \<and> y \<le> 3) s @ two (\<lambda>x y. x \<le> 1) s @ one (\<lambda>x. True) s)"
| "match_item FM s acc =
     map (\<lambda>(v, r). (acc\<lparr>minute := v\<rparr>, r)) (two (\<lambda>x y. x \<le> 5) s @ one (\<lambda>x. True) s)"
| "match_item FS s acc =
     map (\<lambda>(v, r). (acc\<lparr>second := v\<rparr>, r))
       (two (\<lambda>x y. x = 6 \<and> y \<le> 1) s @ two (\<lambda>x y. x \<le> 5) s @ one (\<lambda>x. True) s)"
| "match_item (Lit c) s acc = (case s of a # r \<Rightarrow> if a = c then [(acc, r)] else [] | [] \<Rightarrow> [])"
| "match_item Ws s acc = map (\<lambda>r. (acc, r)) (spaces s)"

fun match_items :: "fmt_item list \<Rightarrow> string \<Rightarrow> datetime \<Rightarrow> (datetime \<times> string) list" where
  "match_items [] s acc = [(acc, s)]"
| "match_items (it # its) s acc =
     concat (map (\<lambda>(acc', r). match_items its r acc') (match_item it s acc))"

text \<open>
  The fields a format does not name default to 1900-01-01 00:00:00. Text left over
  after the match, a year 0, a day the month does not have and a second above 59 are
  \<open>ValueError\<close>s, like the missing match.
\<close>

definition strptime_default :: datetime where
  "strptime_default =
     \<lparr>year = 1900, month = 1, day = 1, hour = 0, minute = 0, second = 0, microsecond = 0\<rparr>"

definition strptime :: "string \<Rightarrow> fmt_item list \<Rightarrow> exn + datetime" where
  "strptime s fmt =
     (case match_items fmt s strptime_default of
        [] \<Rightarrow> Inl (ValueError ''time data does not match format'')
      | (d, rest) # _ \<Rightarrow>
          if rest \<noteq> [] then Inl (ValueError ''unconverted data remains'')
          else if year d < 1 then Inl (ValueError ''year 0 is out of range'')
          else if days_in_month (year d) (month d) < day d then
            Inl (ValueError ''day is out of range for month'')
          else if 59 < second d then Inl (ValueError ''second must be in 0..59'')
          else Inr d)"

text \<open>The formats \<open>%d.%m.%Y\<close>, \<open>%d.%m.%Y %H:%M\<close> and \<open>%d.%m.%Y %H:%M:%S\<close>.\<close>

definition fmt_dmY :: "fmt_item list" where
  "fmt_dmY = [Fd, Lit (CHR ''.''), Fm, Lit (CHR ''.''), FY]"

definition fmt_dmY_HM :: "fmt_item list" where
  "fmt_dmY_HM = fmt_dmY @ [Ws, FH, Lit (CHR '':''), FM]"

definition fmt_dmY_HMS :: "fmt_item list" where
  "fmt_dmY_HMS = fmt_dmY_HM @ [Lit (CHR '':''), FS]"

text \<open>
  The number of days from 0001-01-01 and the seconds between two datetimes without
  microseconds, as \<open>(a - b).total_seconds()\<close> gives them.
\<close>

definition days_before_year :: "nat \<Rightarrow> int" where
  "days_before_year y =
     (let p = int y - 1 in p * 365 + p div 4 - p div 100 + p div 400)"

definition days_before_month :: "nat \<Rightarrow> nat \<Rightarrow> int" where
  "days_before_month y m = (\<Sum>k\<leftarrow>[1..<m]. int (days_in_month y k))"

definition toordinal :: "datetime \<Rightarrow> int" where
  "toordinal d = days_before_year (year d) + days_before_month (year d) (month d) + int (day d)"

definition total_seconds_between :: "datetime \<Rightarrow> datetime \<Rightarrow> rat" where
  "total_seconds_between a b =
     of_int ((toordinal a - toordinal b) * 86400
             + (int (hour a) - int (hour b)) * 3600
             + (int (minute a) - int (minute b)) * 60
             + (int (second a) - int (second b)))
     + of_int (int (microsecond a) - int (microsecond b)) / 1000000"

section \<open>The shift splitter (src/web/shifts.py)\<close>

definition MORNING_START :: "nat \<times> nat" where "MORNING_START = (7, 30)"
definition MORNING_END :: "nat \<times> nat" where "MORNING_END = (19, 30)"
definition EVENING_START :: "nat \<times> nat" where "EVENING_START = (19, 30)"
definition EVENING_END :: "nat \<times> nat" where "EVENING_END = (7, 30)"

definition format_date :: "bool \<Rightarrow> datetime \<Rightarrow> string" where
  "format_date zero_pad dt =
     pad2 (day dt) @ ''.'' @ pad2 (month dt) @ ''.'' @ strftime_Y zero_pad (year dt)"

definition get_shift_type :: "datetime \<Rightarrow> string" where
  "get_shift_type dt =
     (let time_val = hour dt * 60 + minute dt;
          morning_start_val = fst MORNING_START * 60 + snd MORNING_START;
          morning_end_val = fst MORNING_END * 60 + snd MORNING_END
      in if morning_start_val \<le> time_val \<and> time_val < morning_end_val then ''morning''
         else ''evening'')"

definition get_shift_key :: "bool \<Rightarrow> datetime \<Rightarrow> string \<Rightarrow> exn + string" where
  "get_shift_key zero_pad dt shift_type =
     (case (if shift_type = ''evening'' then
              (if hour dt < 7 \<or> (hour dt = 7 \<and> minute dt < 30) then minus_one_day dt
               else Inr dt)
            else Inr dt) of
        Inl e \<Rightarrow> Inl e
      | Inr shift_date \<Rightarrow> Inr (format_date zero_pad shift_date @ ''_'' @ shift_type))"

text \<open>\<open>s.rsplit(c, 1)\<close> and \<open>s.split(c)\<close> for a one-character separator.\<close>

definition rsplit1 :: "char \<Rightarrow> string \<Rightarrow> string list" where
  "rsplit1 c s =
     (let r = rev s; a = takeWhile (\<lambda>x. x \<noteq> c) r; b = dropWhile (\<lambda>x. x \<noteq> c) r
      in if b = [] then [s] else [rev (tl b), rev a])"

fun split_on :: "char \<Rightarrow> string \<Rightarrow> string list" where
  "split_on c [] = [[]]"
| "split_on c (x # xs) =
     (if x = c then [] # split_on c xs
      else (case split_on c xs of p # ps \<Rightarrow> (x # p) # ps | [] \<Rightarrow> [[x]]))"

text \<open>The two label prefixes, in UTF-8: the Russian words for morning and evening, and a space.\<close>

definition label_morning :: string where
  "label_morning = map char_of [208, 163, 209, 130, 209, 128, 208, 190, 32 :: nat]"

definition label_evening :: string where
  "label_evening = map char_of [208, 146, 208, 181, 209, 135, 208, 181, 209, 128, 32 :: nat]"

definition get_shift_label :: "string \<Rightarrow> string" where
  "get_shift_label shift_key =
     (case rsplit1 (CHR ''_'') shift_key of
        [date_str, shift_type] \<Rightarrow>
          (let date_parts = split_on (CHR ''.'') date_str;
               short_date = (if 2 \<le> length date_parts
                             then date_parts ! 0 @ ''.'' @ date_parts ! 1 else date_str)
           in if shift_type = ''morning'' then label_morning @ short_date
              else label_evening @ short_date)
      | _ \<Rightarrow> shift_key)"

definition get_shift_boundaries :: "string \<Rightarrow> exn + datetime \<times> datetime" where
  "get_shift_boundaries shift_key =
     (case rsplit1 (CHR ''_'') shift_key of
        [date_str, shift_type] \<Rightarrow>
          (case strptime date_str fmt_dmY of
             Inl e \<Rightarrow> Inl e
           | Inr date \<Rightarrow>
               if shift_type = ''morning'' then
                 Inr (date\<lparr>hour := fst MORNING_START, minute := snd MORNING_START\<rparr>,
                      date\<lparr>hour := fst MORNING_END, minute := snd MORNING_END\<rparr>)
               else
                 (case plus_one_day date of
                    Inl e \<Rightarrow> Inl e
                  | Inr next_day \<Rightarrow>
                      Inr (date\<lparr>hour := fst EVENING_START, minute := snd EVENING_START\<rparr>,
                           next_day\<lparr>hour := fst EVENING_END, minute := snd EVENING_END\<rparr>)))
      | _ \<Rightarrow> Inl (ValueError (''Invalid shift key: '' @ shift_key)))"

text \<open>
  A shift dict of \<open>split_period_into_shifts\<close>; the fields are its keys \<open>key\<close>,
  \<open>label\<close>, \<open>from_dt\<close>, \<open>to_dt\<close>, \<open>actual_from\<close> and \<open>actual_to\<close>, with a prefix.
\<close>

record shift =
  s_key :: string
  s_label :: string
  s_from_dt :: datetime
  s_to_dt :: datetime
  s_actual_from :: datetime
  s_actual_to :: datetime

text \<open>The body of the loop up to the clipping: the shift that contains \<open>current\<close>.\<close>

definition shift_at :: "bool \<Rightarrow> datetime \<Rightarrow> datetime \<Rightarrow> exn + shift" where
  "shift_at zero_pad current to_dt =
     (let shift_type = get_shift_type current in
      case get_shift_key zero_pad current shift_type of
        Inl e \<Rightarrow> Inl e
      | Inr shift_key \<Rightarrow>
          (case get_shift_boundaries shift_key of
             Inl e \<Rightarrow> Inl e
           | Inr (shift_start, shift_end) \<Rightarrow>
               Inr \<lparr>s_key = shift_key, s_label = get_shift_label shift_key,
                    s_from_dt = shift_start, s_to_dt = shift_end,
                    s_actual_from = dt_max current shift_start,
                    s_actual_to = dt_min to_dt shift_end\<rparr>))"

text \<open>
  The loop \<open>while current < to_dt\<close>. Nothing in the loop bounds the number of
  iterations by itself, so a run that does not end is the value \<open>None\<close>.
\<close>

partial_function (option) split_loop ::
  "bool \<Rightarrow> datetime \<Rightarrow> datetime \<Rightarrow> shift list \<Rightarrow> (exn + shift list) option"
where
  "split_loop zero_pad current to_dt shifts =
     (if dt_less current to_dt then
        (case shift_at zero_pad current to_dt of
           Inl e \<Rightarrow> Some (Inl e)
         | Inr sh \<Rightarrow>
             split_loop zero_pad (s_to_dt sh) to_dt
               (if dt_less (s_actual_from sh) (s_actual_to sh) then shifts @ [sh] else shifts))
      else Some (Inr shifts))"

declare split_loop.simps [code]

definition split_period_into_shifts ::
  "bool \<Rightarrow> datetime \<Rightarrow> datetime \<Rightarrow> (exn + shift list) option"
where
  "split_period_into_shifts zero_pad from_dt to_dt = split_loop zero_pad from_dt to_dt []"

text \<open>A datetime from its date and its hour and minute.\<close>

definition mk_dt :: "nat \<Rightarrow> nat \<Rightarrow> nat \<Rightarrow> nat \<Rightarrow> nat \<Rightarrow> datetime" where
  "mk_dt y m d h mi =
     \<lparr>year = y, month = m, day = d, hour = h, minute = mi, second = 0, microsecond = 0\<rparr>"

subsection \<open>The range of the splitter and the grid of half-days\<close>

text \<open>
  The earliest start and the latest end of a period whose shifts all lie inside the
  range of \<open>datetime\<close> and have a date that \<open>strptime\<close> reads back: 07:30 on the first
  day of the first year with a four-digit \<open>%Y\<close>, and 19:30 on 9999-12-31.
\<close>

definition earliest_start :: "bool \<Rightarrow> datetime" where
  "earliest_start zero_pad = mk_dt (if zero_pad then 1 else 1000) 1 1 7 30"

definition latest_end :: datetime where
  "latest_end = mk_dt 9999 12 31 19 30"

text \<open>The midnight of a datetime's date: what \<open>strptime\<close> returns for \<open>%d.%m.%Y\<close>.\<close>

definition midnight :: "datetime \<Rightarrow> datetime" where
  "midnight d =
     \<lparr>year = year d, month = month d, day = day d, hour = 0, minute = 0, second = 0,
      microsecond = 0\<rparr>"

text \<open>
  A number that grows from each half-day to the next: three slots per calendar day
  (before 07:30, the morning shift, from 19:30 on), days numbered monotonically.
\<close>

definition day_rank :: "datetime \<Rightarrow> nat" where
  "day_rank d = (year d * 13 + month d) * 32 + day d"

definition slot :: "datetime \<Rightarrow> nat" where
  "slot d =
     3 * day_rank d +
     (if hour d * 60 + minute d < 450 then 0 else if hour d * 60 + minute d < 1170 then 1 else 2)"

text \<open>
  The clipped windows of a list of shifts tile the period from \<open>a\<close> to \<open>b\<close>: the
  first starts at \<open>a\<close>, each is non-empty and ends where the next starts, the last ends
  at \<open>b\<close>.
\<close>

fun tiles :: "datetime \<Rightarrow> datetime \<Rightarrow> shift list \<Rightarrow> bool" where
  "tiles a b [] = (a = b)"
| "tiles a b (s # ss) = (s_actual_from s = a \<and> dt_less a (s_actual_to s) \<and> tiles (s_actual_to s) b ss)"

text \<open>The key and the clipped window of every shift of a result.\<close>

definition shift_windows ::
  "(exn + shift list) option \<Rightarrow> (exn + (string \<times> datetime \<times> datetime) list) option"
where
  "shift_windows r =
     map_option (map_sum id (map (\<lambda>s. (s_key s, s_actual_from s, s_actual_to s)))) r"

section \<open>The monitoring parser (src/parsers/monitoring_parser.py)\<close>

text \<open>Python's truth value of a JSON value, \<open>d.get(k, default)\<close> and \<open>d.get(k)\<close>.\<close>

fun truthy :: "json \<Rightarrow> bool" where
  "truthy JNull = False"
| "truthy (JBool b) = b"
| "truthy (JInt i) = (i \<noteq> 0)"
| "truthy (JFloat f) = (f \<noteq> Fin 0)"
| "truthy (JStr s) = (s \<noteq> [])"
| "truthy (JList xs) = (xs \<noteq> [])"
| "truthy (JDict kvs) = (kvs \<noteq> [])"

definition dict_get :: "(string \<times> json) list \<Rightarrow> string \<Rightarrow> json \<Rightarrow> json" where
  "dict_get kvs k dflt = (case map_of kvs k of None \<Rightarrow> dflt | Some v \<Rightarrow> v)"

definition TRACK_SIMPLIFY_INTERVAL_MIN :: int where
  "TRACK_SIMPLIFY_INTERVAL_MIN = 20"

text \<open>
  \<open>_parse_datetime\<close>: \<open>None\<close> for a false value and for a string neither format
  matches; \<open>strptime\<close> raises \<open>TypeError\<close>, which is not caught, for a true value that is
  not a string.
\<close>

definition parse_datetime :: "json \<Rightarrow> exn + datetime option" where
  "parse_datetime dt_str =
     (if \<not> truthy dt_str then Inr None
      else case dt_str of
        JStr s \<Rightarrow>
          (case strptime s fmt_dmY_HMS of
             Inr d \<Rightarrow> Inr (Some d)
           | Inl _ \<Rightarrow>
               (case strptime s fmt_dmY_HM of
                  Inr d \<Rightarrow> Inr (Some d)
                | Inl _ \<Rightarrow> Inr None))
      | _ \<Rightarrow> Inl (TypeError ''strptime() argument 1 must be str''))"

text \<open>A track point as \<open>parse_monitoring\<close> builds it: the keys \<open>lat\<close>, \<open>lon\<close>, \<open>time\<close>, \<open>speed\<close>.\<close>

record track_point =
  tp_lat :: json
  tp_lon :: json
  tp_time :: json
  tp_speed :: json

text \<open>
  The loop over \<open>track[1:-1]\<close> of \<open>_simplify_track\<close>, with \<open>last_time\<close> and \<open>result\<close>
  as arguments. \<open>delta_minutes\<close> is the quotient of a whole number of seconds by 60,
  taken exactly; the double the source computes compares with an integer in the same
  way for every pair of datetimes.
\<close>

fun simplify_loop ::
  "int \<Rightarrow> track_point list \<Rightarrow> datetime option \<Rightarrow> track_point list \<Rightarrow> exn + track_point list"
where
  "simplify_loop interval_minutes [] last_time result = Inr result"
| "simplify_loop interval_minutes (point # rest) last_time result =
     (case parse_datetime (tp_time point) of
        Inl e \<Rightarrow> Inl e
      | Inr point_time \<Rightarrow>
          (case (point_time, last_time) of
             (Some pt, Some lt) \<Rightarrow>
               if total_seconds_between pt lt / 60 \<ge> of_int interval_minutes
               then simplify_loop interval_minutes rest (Some pt) (result @ [point])
               else simplify_loop interval_minutes rest last_time result
           | (Some pt, None) \<Rightarrow> simplify_loop interval_minutes rest (Some pt) (result @ [point])
           | (None, _) \<Rightarrow> simplify_loop interval_minutes rest last_time result))"

definition simplify_track :: "track_point list \<Rightarrow> int \<Rightarrow> exn + track_point list" where
  "simplify_track track interval_minutes =
     (if track = [] \<or> length track \<le> 2 then Inr track
      else case parse_datetime (tp_time (hd track)) of
        Inl e \<Rightarrow> Inl e
      | Inr last_time \<Rightarrow>
          (case simplify_loop interval_minutes (butlast (tl track)) last_time [hd track] of
             Inl e \<Rightarrow> Inl e
           | Inr result \<Rightarrow> Inr (result @ [last track])))"

text \<open>The records of \<open>mon_fuels\<close> and \<open>mon_parkings\<close>, and the parsed monitoring dict.\<close>

record fuel =
  f_name :: json
  f_charges :: json
  f_discharges :: json
  f_rate :: json
  f_value_begin :: json
  f_value_end :: json

record parking =
  p_begin :: json
  p_end :: json
  p_address :: json
  p_duration_min :: json
  p_lat :: json
  p_lon :: json

record monitoring =
  mon_mo_uid :: json
  mon_name_mo :: json
  mon_distance :: json
  mon_moving_time :: json
  mon_engine_time :: json
  mon_engine_idling_time :: json
  mon_last_activity :: json
  mon_moving_time_hours :: json
  mon_engine_time_hours :: json
  mon_idling_time_hours :: json
  mon_fuel_name :: json
  mon_fuel_charges :: json
  mon_fuel_discharges :: json
  mon_fuel_rate :: json
  mon_fuel_begin :: json
  mon_fuel_end :: json
  mon_fuels :: "fuel list"
  mon_parkings :: "parking list"
  mon_parkings_count :: nat
  mon_parkings_total_hours :: json
  mon_track :: "track_point list"

definition empty_monitoring :: monitoring where
  "empty_monitoring =
     \<lparr>mon_mo_uid = JNull, mon_name_mo = JNull, mon_distance = JNull, mon_moving_time = JNull,
      mon_engine_time = JNull, mon_engine_idling_time = JNull, mon_last_activity = JNull,
      mon_moving_time_hours = JNull, mon_engine_time_hours = JNull,
      mon_idling_time_hours = JNull, mon_fuel_name = JNull, mon_fuel_charges = JNull,
      mon_fuel_discharges = JNull, mon_fuel_rate = JNull, mon_fuel_begin = JNull,
      mon_fuel_end = JNull, mon_fuels = [], mon_parkings = [], mon_parkings_count = 0,
      mon_parkings_total_hours = JInt 0, mon_track = []\<rparr>"

text \<open>
  The floating-point arithmetic of the parser is a parameter:
  \<^item> \<open>hours_of v\<close> is \<open>round(v / 3600, 2)\<close>, or the exception the division raises
    (\<open>TypeError\<close> for a value that is not a number, \<open>OverflowError\<close> for an integer too
    large for a float);
  \<^item> \<open>minutes_of s\<close> is \<open>round(s / 60, 1)\<close> for the seconds \<open>s\<close> between two datetimes;
  \<^item> \<open>add_minutes t m\<close> is \<open>t + m\<close> for the running total \<open>t\<close> (the integer 0 at first);
  \<^item> \<open>total_hours_of t\<close> is \<open>round(t / 60, 2)\<close>.
\<close>

record float_ops =
  hours_of :: "json \<Rightarrow> exn + pyfloat"
  minutes_of :: "rat \<Rightarrow> pyfloat"
  add_minutes :: "json \<Rightarrow> pyfloat \<Rightarrow> pyfloat"
  total_hours_of :: "json \<Rightarrow> pyfloat"

text \<open>\<open>round(x / 3600, 2) if x else None\<close> for one of the three time fields.\<close>

definition time_hours :: "float_ops \<Rightarrow> json \<Rightarrow> exn + json" where
  "time_hours ops v =
     (if truthy v then (case hours_of ops v of Inl e \<Rightarrow> Inl e | Inr h \<Rightarrow> Inr (JFloat h))
      else Inr JNull)"

text \<open>The loop over \<open>fuels\<close>: one record for every element that is a dict.\<close>

fun parse_fuels :: "json list \<Rightarrow> fuel list" where
  "parse_fuels [] = []"
| "parse_fuels (JDict f # rest) =
     \<lparr>f_name = dict_get f ''fuelName'' JNull, f_charges = dict_get f ''charges'' JNull,
      f_discharges = dict_get f ''discharges'' JNull, f_rate = dict_get f ''rate'' JNull,
      f_value_begin = dict_get f ''valueBegin'' JNull, f_value_end = dict_get f ''valueEnd'' JNull\<rparr>
     # parse_fuels rest"
| "parse_fuels (_ # rest) = parse_fuels rest"

text \<open>
  The loop over \<open>parkings\<close>, with \<open>result['mon_parkings']\<close> and \<open>total_parking_minutes\<close>
  as arguments.
\<close>

fun parse_parkings ::
  "float_ops \<Rightarrow> json list \<Rightarrow> parking list \<Rightarrow> json \<Rightarrow> exn + parking list \<times> json"
where
  "parse_parkings ops [] parkings total_minutes = Inr (parkings, total_minutes)"
| "parse_parkings ops (JDict p # rest) parkings total_minutes =
     (let begin_val = dict_get p ''begin'' JNull; end_val = dict_get p ''end'' JNull in
      case parse_datetime begin_val of
        Inl e \<Rightarrow> Inl e
      | Inr begin_dt \<Rightarrow>
          (case parse_datetime end_val of
             Inl e \<Rightarrow> Inl e
           | Inr end_dt \<Rightarrow>
               (let parking_minutes =
                      (case (begin_dt, end_dt) of
                         (Some b, Some e) \<Rightarrow> Some (minutes_of ops (total_seconds_between e b))
                       | _ \<Rightarrow> None);
                    total' = (case parking_minutes of
                                Some m \<Rightarrow> JFloat (add_minutes ops total_minutes m)
                              | None \<Rightarrow> total_minutes)
                in parse_parkings ops rest
                     (parkings @
                      [\<lparr>p_begin = begin_val, p_end = end_val, p_address = dict_get p ''address'' (JStr ''''),
                        p_duration_min = (case parking_minutes of
                                            Some m \<Rightarrow> JFloat m | None \<Rightarrow> JNull),
                        p_lat = dict_get p ''lat'' JNull, p_lon = dict_get p ''lon'' JNull\<rparr>])
                     total')))"
| "parse_parkings ops (_ # rest) parkings total_minutes =
     parse_parkings ops rest parkings total_minutes"

text \<open>The loop that extracts the track points with both coordinates.\<close>

fun track_points :: "json list \<Rightarrow> track_point list" where
  "track_points [] = []"
| "track_points (JDict t # rest) =
     (let lat = dict_get t ''lat'' JNull; lon = dict_get t ''lon'' JNull in
      if lat \<noteq> JNull \<and> lon \<noteq> JNull then
        \<lparr>tp_lat = lat, tp_lon = lon, tp_time = dict_get t ''time'' (JStr ''''),
         tp_speed = dict_get t ''speed'' JNull\<rparr> # track_points rest
      else track_points rest)"
| "track_points (_ # rest) = track_points rest"

text \<open>
  The three blocks of \<open>parse_monitoring\<close> that read \<open>fuels\<close>, \<open>parkings\<close> and \<open>track\<close>:
  each does its loop only for a non-empty list.
\<close>

definition fuels_of :: "(string \<times> json) list \<Rightarrow> fuel list" where
  "fuels_of kvs =
     (case dict_get kvs ''fuels'' (JList []) of JList fs \<Rightarrow> parse_fuels fs | _ \<Rightarrow> [])"

definition parkings_of :: "float_ops \<Rightarrow> (string \<times> json) list \<Rightarrow> exn + parking list \<times> json" where
  "parkings_of ops kvs =
     (case dict_get kvs ''parkings'' (JList []) of
        JList ps \<Rightarrow> parse_parkings ops ps [] (JInt 0)
      | _ \<Rightarrow> Inr ([], JInt 0))"

definition track_of :: "(string \<times> json) list \<Rightarrow> exn + track_point list" where
  "track_of kvs =
     (case dict_get kvs ''track'' (JList []) of
        JList ts \<Rightarrow>
          if ts = [] then Inr []
          else simplify_track (track_points ts) TRACK_SIMPLIFY_INTERVAL_MIN
      | _ \<Rightarrow> Inr [])"

definition parse_monitoring :: "float_ops \<Rightarrow> json \<Rightarrow> exn + monitoring" where
  "parse_monitoring ops data =
     (case data of
        JDict kvs \<Rightarrow>
          if kvs = [] then Inr empty_monitoring
          else
            (case time_hours ops (dict_get kvs ''movingTime'' JNull) of
               Inl e \<Rightarrow> Inl e
             | Inr moving_hours \<Rightarrow>
            (case time_hours ops (dict_get kvs ''engineTime'' JNull) of
               Inl e \<Rightarrow> Inl e
             | Inr engine_hours \<Rightarrow>
            (case time_hours ops (dict_get kvs ''engineIdlingTime'' JNull) of
               Inl e \<Rightarrow> Inl e
             | Inr idling_hours \<Rightarrow>
            (case parkings_of ops kvs of
               Inl e \<Rightarrow> Inl e
             | Inr (parkings, total_parking_minutes) \<Rightarrow>
            (case track_of kvs of
               Inl e \<Rightarrow> Inl e
             | Inr track \<Rightarrow>
                 (let fuels = fuels_of kvs in
                  Inr \<lparr>mon_mo_uid = dict_get kvs ''moUid'' JNull,
                      mon_name_mo = dict_get kvs ''nameMO'' JNull,
                      mon_distance = dict_get kvs ''distance'' JNull,
                      mon_moving_time = dict_get kvs ''movingTime'' JNull,
                      mon_engine_time = dict_get kvs ''engineTime'' JNull,
                      mon_engine_idling_time = dict_get kvs ''engineIdlingTime'' JNull,
                      mon_last_activity = dict_get kvs ''lastActivityTime'' JNull,
                      mon_moving_time_hours = moving_hours,
                      mon_engine_time_hours = engine_hours,
                      mon_idling_time_hours = idling_hours,
                      mon_fuel_name = (case fuels of [] \<Rightarrow> JNull | f # _ \<Rightarrow> f_name f),
                      mon_fuel_charges = (case fuels of [] \<Rightarrow> JNull | f # _ \<Rightarrow> f_charges f),
                      mon_fuel_discharges =
                        (case fuels of [] \<Rightarrow> JNull | f # _ \<Rightarrow> f_discharges f),
                      mon_fuel_rate = (case fuels of [] \<Rightarrow> JNull | f # _ \<Rightarrow> f_rate f),
                      mon_fuel_begin = (case fuels of [] \<Rightarrow> JNull | f # _ \<Rightarrow> f_value_begin f),
                      mon_fuel_end = (case fuels of [] \<Rightarrow> JNull | f # _ \<Rightarrow> f_value_end f),
                      mon_fuels = fuels,
                      mon_parkings = parkings,
                      mon_parkings_count = length parkings,
                      mon_parkings_total_hours =
                        (if truthy total_parking_minutes
                         then JFloat (total_hours_of ops total_parking_minutes) else JInt 0),
                      mon_track = track\<rparr>))))))
      | _ \<Rightarrow> Inr empty_monitoring)"

text \<open>Whether a JSON value equals the number 0 in Python (\<open>0\<close>, \<open>0.0\<close> and \<open>False\<close> do).\<close>

fun is_zero :: "json \<Rightarrow> bool" where
  "is_zero (JInt i) = (i = 0)"
| "is_zero (JFloat f) = (f = Fin 0)"
| "is_zero (JBool b) = (\<not> b)"
| "is_zero _ = False"

text \<open>
  An instance of the arithmetic for concrete evaluations: it is exact where the result
  is a dyadic number of few digits and stands for the nearest double elsewhere.
\<close>

definition sample_ops :: float_ops where
  "sample_ops =
     \<lparr>hours_of = (\<lambda>v. case v of
                       JInt i \<Rightarrow> Inr (Fin (of_int (round (of_int i / 36 :: rat)) / 100))
                     | JFloat (Fin x) \<Rightarrow> Inr (Fin (of_int (round (x / 36)) / 100))
                     | JFloat f \<Rightarrow> Inr f
                     | JBool b \<Rightarrow> Inr (Fin 0)
                     | _ \<Rightarrow> Inl (TypeError ''unsupported operand type(s) for /'')),
      minutes_of = (\<lambda>s. Fin (of_int (round (s / 6)) / 10)),
      add_minutes = (\<lambda>t m. case (t, m) of
                       (JInt i, Fin x) \<Rightarrow> Fin (of_int i + x)
                     | (JFloat (Fin y), Fin x) \<Rightarrow> Fin (y + x)
                     | _ \<Rightarrow> m),
      total_hours_of = (\<lambda>t. case t of
                       JFloat (Fin x) \<Rightarrow> Fin (of_int (round (x * 100 / 60)) / 100)
                     | JFloat f \<Rightarrow> f
                     | _ \<Rightarrow> Fin 0)\<rparr>"

text \<open>A payload with the three time fields zero, and a track of two points without times.\<close>

definition zero_payload :: json where
  "zero_payload =
     JDict [(''moUid'', JStr ''u1''), (''distance'', JFloat (Fin 12)),
            (''movingTime'', JInt 0), (''engineTime'', JFloat (Fin 0)),
            (''engineIdlingTime'', JInt 0)]"

definition two_points :: "track_point list" where
  "two_points =
     [\<lparr>tp_lat = JFloat (Fin 55), tp_lon = JFloat (Fin 37), tp_time = JStr ''no time'',
       tp_speed = JInt 0\<rparr>,
      \<lparr>tp_lat = JFloat (Fin 56), tp_lon = JFloat (Fin 38), tp_time = JInt 5, tp_speed = JNull\<rparr>]"

section \<open>The task extractor (src/api/fetcher.py)\<close>



















section \<open>Rate-limit retries of the HTTP client\<close>


















section \<open>The task interleaver\<close>

text \<open>
  With distinct keys, one pass over \<open>vehicle_ids\<close> removes the first task of every
  non-empty group and appends these tasks to the result in key order.
\<close>

lemma round_pass_distinct:
  "distinct ids \<Longrightarrow>
   foldl round_step (tab, res) ids =
     (\<lambda>v. if v \<in> set ids then tl (tab v) else tab v, res @ concat (map (\<lambda>v. take 1 (tab v)) ids))"
proof (induction ids arbitrary: tab res)
  case Nil
  then show ?case by simp
next
  case (Cons a ids)
  have s: "round_step (tab, res) a = (tab(a := tl (tab a)), res @ take 1 (tab a))"
    by (cases "tab a") (auto simp: round_step_def)
  have m: "map (\<lambda>v. take 1 ((tab(a := tl (tab a))) v)) ids = map (\<lambda>v. take 1 (tab v)) ids"
    using Cons.prems by (intro map_cong) auto
  have "foldl round_step (tab, res) (a # ids) =
          foldl round_step (tab(a := tl (tab a)), res @ take 1 (tab a)) ids"
    by (simp add: s)
  also have "\<dots> = (\<lambda>v. if v \<in> set ids then tl ((tab(a := tl (tab a))) v) else (tab(a := tl (tab a))) v,
                   (res @ take 1 (tab a)) @ concat (map (\<lambda>v. take 1 ((tab(a := tl (tab a))) v)) ids))"
    using Cons.prems by (intro Cons.IH) simp
  also have "\<dots> = (\<lambda>v. if v \<in> set (a # ids) then tl (tab v) else tab v,
                   res @ concat (map (\<lambda>v. take 1 (tab v)) (a # ids)))"
    using Cons.prems by (simp only: m) (auto simp: fun_eq_iff)
  finally show ?case .
qed

lemma interleave_loop_rounds:
  "distinct ids \<Longrightarrow> interleave_loop ids tab res = res @ spec_rounds (map tab ids)"
proof (induction ids tab res rule: interleave_loop.induct)
  case (1 ids tab res)
  show ?case
  proof (cases "list_ex (\<lambda>vid. tab vid \<noteq> []) ids")
    case True
    let ?tab' = "\<lambda>v. if v \<in> set ids then tl (tab v) else tab v"
    let ?res' = "res @ concat (map (\<lambda>v. take 1 (tab v)) ids)"
    have f: "foldl round_step (tab, res) ids = (?tab', ?res')"
      using round_pass_distinct[OF "1.prems"] .
    have ih: "interleave_loop ids ?tab' ?res' = ?res' @ spec_rounds (map ?tab' ids)"
      using "1.IH"[OF True f[symmetric] "1.prems"] .
    have m: "map ?tab' ids = map (drop 1) (map tab ids)"
      by (simp add: drop_Suc)
    have ne: "\<not> list_all (\<lambda>g. g = []) (map tab ids)"
      using True by (auto simp: list_ex_iff list_all_iff)
    have "interleave_loop ids tab res = interleave_loop ids ?tab' ?res'"
      using True f by (subst interleave_loop.simps) simp
    also have "\<dots> = ?res' @ spec_rounds (map (drop 1) (map tab ids))"
      using ih m by simp
    also have "\<dots> = res @ spec_rounds (map tab ids)"
      using ne by (subst (2) spec_rounds.simps) (simp add: comp_def)
    finally show ?thesis .
  next
    case False
    then have "list_all (\<lambda>g. g = []) (map tab ids)"
      by (auto simp: list_ex_iff list_all_iff)
    then have "spec_rounds (map tab ids) = []" by (subst spec_rounds.simps) simp
    with False show ?thesis by (subst interleave_loop.simps) simp
  qed
qed

lemma first_seen_snoc:
  "first_seen (xs @ [x]) = (if x \<in> set xs then first_seen xs else first_seen xs @ [x])"
  by (simp add: first_seen_def)

lemma set_first_seen: "set (first_seen xs) = set xs"
  by (simp add: first_seen_def)

lemma distinct_first_seen: "distinct (first_seen xs)"
  by (simp add: first_seen_def)

lemma group_fold:
  "foldl group_step ([], \<lambda>_. []) tasks =
     (first_seen (map ts_id_mo tasks), \<lambda>v. filter (\<lambda>t. ts_id_mo t = v) tasks)"
proof (induction tasks rule: rev_induct)
  case Nil
  then show ?case by (simp add: first_seen_def)
next
  case (snoc x xs)
  have "foldl group_step ([], \<lambda>_. []) (xs @ [x]) =
        group_step (first_seen (map ts_id_mo xs), \<lambda>v. filter (\<lambda>t. ts_id_mo t = v) xs) x"
    by (simp only: foldl_append foldl_Cons foldl_Nil snoc.IH)
  also have "\<dots> = (first_seen (map ts_id_mo (xs @ [x])), \<lambda>v. filter (\<lambda>t. ts_id_mo t = v) (xs @ [x]))"
    by (auto simp: group_step_def first_seen_snoc set_first_seen Let_def fun_eq_iff filter_empty_conv image_iff)
  finally show ?case .
qed

lemma reorder_is_spec: "reorder_tasks_for_rate_limit tasks = interleave_spec tasks"
proof (cases "tasks = []")
  case True
  then show ?thesis
    by (simp add: reorder_tasks_for_rate_limit_def interleave_spec_def spec_groups_def
        first_seen_def spec_rounds.simps)
next
  case False
  then show ?thesis
    by (simp add: reorder_tasks_for_rate_limit_def interleave_spec_def spec_groups_def
        group_fold interleave_loop_rounds distinct_first_seen)
qed

lemma mset_take_drop_concat:
  "mset (concat (map (take n) gs)) + mset (concat (map (drop n) gs)) = mset (concat gs)"
proof (induction gs)
  case Nil
  then show ?case by simp
next
  case (Cons g gs)
  have "mset (take n g) + mset (drop n g) = mset g"
    by (metis append_take_drop_id mset_append)
  with Cons show ?case by (simp add: ac_simps)
qed

lemma mset_spec_rounds: "mset (spec_rounds gs) = mset (concat gs)"
proof (induction gs rule: spec_rounds.induct)
  case (1 gs)
  show ?case
  proof (cases "list_all (\<lambda>g. g = []) gs")
    case True
    then have "concat gs = []" by (auto simp: list_all_iff)
    with True show ?thesis by (subst spec_rounds.simps) simp
  next
    case False
    with 1 have "mset (spec_rounds (map (drop 1) gs)) = mset (concat (map (drop 1) gs))" by simp
    with False show ?thesis
      by (subst spec_rounds.simps) (simp add: mset_take_drop_concat)
  qed
qed

lemma mset_groups:
  "distinct vs \<Longrightarrow>
   mset (concat (map (\<lambda>v. filter (\<lambda>t. f t = v) xs) vs)) = mset (filter (\<lambda>t. f t \<in> set vs) xs)"
proof (induction vs)
  case Nil
  then show ?case by simp
next
  case (Cons v vs)
  have "mset (filter (\<lambda>t. f t = v) xs) + mset (filter (\<lambda>t. f t \<in> set vs) xs)
        = mset (filter (\<lambda>t. f t = v \<or> f t \<in> set vs) xs)"
    using Cons.prems by (induction xs) auto
  with Cons show ?case by simp
qed

lemma mset_interleave_spec: "mset (interleave_spec tasks) = mset tasks"
proof -
  have "filter (\<lambda>t. ts_id_mo t \<in> set (first_seen (map ts_id_mo tasks))) tasks = tasks"
    by (simp add: set_first_seen)
  then show ?thesis
    by (simp add: interleave_spec_def spec_groups_def mset_spec_rounds mset_groups distinct_first_seen)
qed

text \<open>
  C7. For every task list the interleaver returns the round robin over the per-vehicle
  groups (groups in first-appearance order of the vehicle id, each group in the original
  order; one task of every non-empty group per round, until all groups are exhausted),
  and the result is a permutation of the input. For the vehicles A, B, A, C, A, C the
  output order is A, B, C, A, C, A.
\<close>

theorem reorder_tasks_round_robin:
  "reorder_tasks_for_rate_limit tasks = interleave_spec tasks
   \<and> mset (reorder_tasks_for_rate_limit tasks) = mset tasks
   \<and> reorder_tasks_for_rate_limit abc_tasks =
       [mk_task ''p1'' ''A'', mk_task ''p2'' ''B'', mk_task ''p4'' ''C'',
        mk_task ''p3'' ''A'', mk_task ''p6'' ''C'', mk_task ''p5'' ''A'']"
proof -
  have "reorder_tasks_for_rate_limit abc_tasks =
       [mk_task ''p1'' ''A'', mk_task ''p2'' ''B'', mk_task ''p4'' ''C'',
        mk_task ''p3'' ''A'', mk_task ''p6'' ''C'', mk_task ''p5'' ''A'']"
    by (simp add: reorder_tasks_for_rate_limit_def abc_tasks_def group_step_def mk_task_def
        interleave_loop.simps round_step_def Let_def)
  then show ?thesis
    by (simp add: reorder_is_spec mset_interleave_spec)
qed

section \<open>The shift splitter\<close>

subsection \<open>Formatting a date and parsing it back\<close>

lemma dig_digit_char: "k < 10 \<Longrightarrow> dig (digit_char k) = Some k"
  by (simp add: dig_def digit_char_def Let_def)

lemma show_nat_1: "n < 10 \<Longrightarrow> show_nat n = [digit_char n]"
  by (subst show_nat.simps) simp

lemma show_nat_2: "10 \<le> n \<Longrightarrow> n < 100 \<Longrightarrow> show_nat n = [digit_char (n div 10), digit_char (n mod 10)]"
  by (subst show_nat.simps) (simp add: show_nat_1)

lemma show_nat_3: "100 \<le> n \<Longrightarrow> n < 1000 \<Longrightarrow>
  show_nat n = [digit_char (n div 10 div 10), digit_char (n div 10 mod 10), digit_char (n mod 10)]"
  by (subst show_nat.simps) (simp add: show_nat_2)

lemma show_nat_4: "1000 \<le> n \<Longrightarrow> n < 10000 \<Longrightarrow>
  show_nat n = [digit_char (n div 10 div 10 div 10), digit_char (n div 10 div 10 mod 10),
                digit_char (n div 10 mod 10), digit_char (n mod 10)]"
  by (subst show_nat.simps) (simp add: show_nat_3)

lemma digit_char_0: "digit_char 0 = CHR ''0''"
  by code_simp

lemma pad2_digits: "n < 100 \<Longrightarrow> pad2 n = [digit_char (n div 10), digit_char (n mod 10)]"
  by (cases "n < 10") (simp_all add: pad2_def show_nat_1 show_nat_2 digit_char_0)

lemma replicate_small:
  "replicate 3 c = [c, c, c]" "replicate 2 c = [c, c]" "replicate 1 c = [c]"
  by (simp_all add: numeral_3_eq_3 numeral_2_eq_2)

lemma strftime_Y_digits:
  assumes "y \<le> 9999" and "zero_pad \<or> 1000 \<le> y"
  shows "strftime_Y zero_pad y =
     [digit_char (y div 10 div 10 div 10), digit_char (y div 10 div 10 mod 10),
      digit_char (y div 10 mod 10), digit_char (y mod 10)]"
proof -
  consider "y < 10" | "10 \<le> y" "y < 100" | "100 \<le> y" "y < 1000" | "1000 \<le> y" by linarith
  then show ?thesis
  proof cases
    case 1
    with assms show ?thesis
      by (simp add: strftime_Y_def show_nat_1 digit_char_0 replicate_small)
  next
    case 2
    with assms show ?thesis
      by (simp add: strftime_Y_def show_nat_2 digit_char_0 replicate_small)
  next
    case 3
    with assms show ?thesis
      by (simp add: strftime_Y_def show_nat_3 digit_char_0 replicate_small)
  next
    case 4
    with assms show ?thesis
      by (simp add: strftime_Y_def show_nat_4)
  qed
qed


lemma two_digits:
  "x < 10 \<Longrightarrow> y < 10 \<Longrightarrow>
   two P (digit_char x # digit_char y # s) = (if P x y then [(10 * x + y, s)] else [])"
  by (simp add: dig_digit_char)

lemma four_digits:
  "w < 10 \<Longrightarrow> x < 10 \<Longrightarrow> y < 10 \<Longrightarrow> z < 10 \<Longrightarrow>
   four (digit_char w # digit_char x # digit_char y # digit_char z # s) =
     [(1000 * w + 100 * x + 10 * y + z, s)]"
  by (simp add: dig_digit_char)

lemma match_Fd_xy:
  assumes "x < 10" and "y < 10"
    and "(x = 3 \<and> y \<le> 1) \<or> (1 \<le> x \<and> x \<le> 2) \<or> (x = 0 \<and> 1 \<le> y)"
  shows "\<exists>more. match_item Fd (digit_char x # digit_char y # s) acc =
           (acc\<lparr>day := 10 * x + y\<rparr>, s) # more"
  using assms by (auto simp: two_digits simp del: two.simps one.simps)

lemma match_Fd:
  assumes "1 \<le> d" and "d \<le> 31"
  shows "\<exists>more. match_item Fd (digit_char (d div 10) # digit_char (d mod 10) # s) acc =
           (acc\<lparr>day := d\<rparr>, s) # more"
proof -
  have x: "d div 10 < 10" and y: "d mod 10 < 10" using assms by auto
  have v: "10 * (d div 10) + d mod 10 = d" by simp
  have "(d div 10 = 3 \<and> d mod 10 \<le> 1) \<or> (1 \<le> d div 10 \<and> d div 10 \<le> 2) \<or>
        (d div 10 = 0 \<and> 1 \<le> d mod 10)"
    using assms by presburger
  from match_Fd_xy[OF x y this, of s acc] show ?thesis by (simp only: v)
qed

lemma match_Fm_xy:
  assumes "x < 10" and "y < 10"
    and "(x = 1 \<and> y \<le> 2) \<or> (x = 0 \<and> 1 \<le> y)"
  shows "\<exists>more. match_item Fm (digit_char x # digit_char y # s) acc =
           (acc\<lparr>month := 10 * x + y\<rparr>, s) # more"
  using assms by (auto simp: two_digits simp del: two.simps one.simps)

lemma match_Fm:
  assumes "1 \<le> m" and "m \<le> 12"
  shows "\<exists>more. match_item Fm (digit_char (m div 10) # digit_char (m mod 10) # s) acc =
           (acc\<lparr>month := m\<rparr>, s) # more"
proof -
  have x: "m div 10 < 10" and y: "m mod 10 < 10" using assms by auto
  have v: "10 * (m div 10) + m mod 10 = m" by simp
  have "(m div 10 = 1 \<and> m mod 10 \<le> 2) \<or> (m div 10 = 0 \<and> 1 \<le> m mod 10)"
    using assms by presburger
  from match_Fm_xy[OF x y this, of s acc] show ?thesis by (simp only: v)
qed

lemma match_FY:
  assumes "y \<le> 9999"
  shows "match_item FY (digit_char (y div 10 div 10 div 10) # digit_char (y div 10 div 10 mod 10) #
            digit_char (y div 10 mod 10) # digit_char (y mod 10) # s) acc = [(acc\<lparr>year := y\<rparr>, s)]"
proof -
  have a: "y div 10 div 10 div 10 < 10" using assms by simp
  have "y = 10 * (y div 10) + y mod 10"
    and "y div 10 = 10 * (y div 10 div 10) + y div 10 mod 10"
    and "y div 10 div 10 = 10 * (y div 10 div 10 div 10) + y div 10 div 10 mod 10"
    by simp_all
  then have v: "1000 * (y div 10 div 10 div 10) + 100 * (y div 10 div 10 mod 10) + 10 * (y div 10 mod 10) + y mod 10 = y"
    by linarith
  show ?thesis
    by (simp add: four_digits[OF a] v del: four.simps)
qed


lemma match_items_step:
  assumes "\<exists>more. match_item it s acc = (acc', r) # more"
    and "\<exists>more. match_items its r acc' = res # more"
  shows "\<exists>more. match_items (it # its) s acc = res # more"
  using assms by auto

lemma match_Lit: "match_item (Lit c) (c # s) acc = [(acc, s)]"
  by simp

lemma match_items_dmY:
  assumes "1 \<le> d" "d \<le> 31" "1 \<le> m" "m \<le> 12" "y \<le> 9999"
  shows "\<exists>more. match_items fmt_dmY
           (digit_char (d div 10) # digit_char (d mod 10) # CHR ''.'' #
            digit_char (m div 10) # digit_char (m mod 10) # CHR ''.'' #
            [digit_char (y div 10 div 10 div 10), digit_char (y div 10 div 10 mod 10),
             digit_char (y div 10 mod 10), digit_char (y mod 10)]) acc =
           (acc\<lparr>day := d, month := m, year := y\<rparr>, []) # more"
  unfolding fmt_dmY_def
  apply (rule match_items_step[OF match_Fd[OF assms(1,2)]])
  apply (rule match_items_step[where acc' = "acc\<lparr>day := d\<rparr>"])
   apply (simp only: match_Lit) apply blast
  apply (rule match_items_step[OF match_Fm[OF assms(3,4)]])
  apply (rule match_items_step[where acc' = "acc\<lparr>day := d, month := m\<rparr>"])
   apply (simp only: match_Lit) apply blast
  apply (rule match_items_step[where acc' = "acc\<lparr>day := d, month := m, year := y\<rparr>" and r = "[]"])
   apply (simp only: match_FY[OF assms(5)]) apply blast
  apply simp
  done

lemma days_in_month_le: "days_in_month y m \<le> 31"
  by (simp add: days_in_month_def)

lemma strptime_format_date:
  assumes "valid_date dt" and "zero_pad \<or> 1000 \<le> year dt"
  shows "strptime (format_date zero_pad dt) fmt_dmY =
     Inr \<lparr>year = year dt, month = month dt, day = day dt, hour = 0, minute = 0, second = 0,
          microsecond = 0\<rparr>"
proof -
  from assms(1) have r: "1 \<le> day dt" "day dt \<le> 31" "1 \<le> month dt" "month dt \<le> 12"
      "year dt \<le> 9999" "1 \<le> year dt" "day dt \<le> days_in_month (year dt) (month dt)"
    using days_in_month_le[of "year dt" "month dt"] by (auto simp: valid_date_def)
  have f: "format_date zero_pad dt =
      digit_char (day dt div 10) # digit_char (day dt mod 10) # CHR ''.'' #
      digit_char (month dt div 10) # digit_char (month dt mod 10) # CHR ''.'' #
      [digit_char (year dt div 10 div 10 div 10), digit_char (year dt div 10 div 10 mod 10),
       digit_char (year dt div 10 mod 10), digit_char (year dt mod 10)]"
    using r assms(2) by (simp add: format_date_def pad2_digits strftime_Y_digits)
  from match_items_dmY[OF r(1-5), of strptime_default] obtain more where
    "match_items fmt_dmY (format_date zero_pad dt) strptime_default =
       (strptime_default\<lparr>day := day dt, month := month dt, year := year dt\<rparr>, []) # more"
    unfolding f by blast
  then show ?thesis using r
    by (simp add: strptime_def strptime_default_def)
qed


subsection \<open>Calendar days\<close>

lemma rsplit1_key:
  assumes "CHR ''_'' \<notin> set t"
  shows "rsplit1 (CHR ''_'') (ds @ CHR ''_'' # t) = [ds, t]"
proof -
  have p: "\<And>x. x \<in> set (rev t) \<Longrightarrow> x \<noteq> CHR ''_''" using assms by auto
  have "takeWhile (\<lambda>x. x \<noteq> CHR ''_'') (rev t @ CHR ''_'' # rev ds) = rev t"
    by (subst takeWhile_append2) (use p in auto)
  moreover have "dropWhile (\<lambda>x. x \<noteq> CHR ''_'') (rev t @ CHR ''_'' # rev ds) = CHR ''_'' # rev ds"
    by (subst dropWhile_append2) (use p in auto)
  ultimately show ?thesis by (simp add: rsplit1_def Let_def)
qed

lemma days_in_month_ge: "28 \<le> days_in_month y m"
  by (simp add: days_in_month_def)

lemma days_in_month_12: "days_in_month y 12 = 31"
  by (simp add: days_in_month_def)

lemma plus_one_day_valid:
  assumes "valid_date d" and "plus_one_day d = Inr d'"
  shows "valid_date d'" and "day_rank d < day_rank d'"
    and "(year d, month d, day d) < (year d', month d', day d')"
    and "hour d' = hour d" "minute d' = minute d" "second d' = second d" "microsecond d' = microsecond d"
proof -
  from assms(1) have v: "1 \<le> year d" "year d \<le> 9999" "1 \<le> month d" "month d \<le> 12" "1 \<le> day d"
    "day d \<le> days_in_month (year d) (month d)" by (auto simp: valid_date_def)
  note dim = days_in_month_le[of "year d" "month d"] days_in_month_ge[of "year d" "month d + 1"]
    days_in_month_ge[of "year d + 1" 1]
  consider (a) "day d < days_in_month (year d) (month d)" "d' = d\<lparr>day := day d + 1\<rparr>"
    | (b) "\<not> day d < days_in_month (year d) (month d)" "month d < 12" "d' = d\<lparr>month := month d + 1, day := 1\<rparr>"
    | (c) "\<not> day d < days_in_month (year d) (month d)" "\<not> month d < 12" "year d < 9999"
          "d' = d\<lparr>year := year d + 1, month := 1, day := 1\<rparr>"
    using assms(2) by (auto simp: plus_one_day_def split: if_splits)
  then have "valid_date d' \<and> day_rank d < day_rank d' \<and>
      (year d, month d, day d) < (year d', month d', day d') \<and>
      hour d' = hour d \<and> minute d' = minute d \<and> second d' = second d \<and> microsecond d' = microsecond d"
  proof cases
    case a
    with v show ?thesis by (simp add: valid_date_def day_rank_def)
  next
    case b
    with v dim show ?thesis by (simp add: valid_date_def day_rank_def)
  next
    case c
    with v dim show ?thesis by (simp add: valid_date_def day_rank_def)
  qed
  then show "valid_date d'" and "day_rank d < day_rank d'"
    and "(year d, month d, day d) < (year d', month d', day d')"
    and "hour d' = hour d" "minute d' = minute d" "second d' = second d" "microsecond d' = microsecond d"
    by simp_all
qed


lemma plus_one_day_ok:
  assumes "valid_date d" and "(year d, month d, day d) < (9999, 12, 31)"
  shows "\<exists>d'. plus_one_day d = Inr d'"
proof -
  from assms(1) have v: "year d \<le> 9999" "month d \<le> 12"
    "day d \<le> days_in_month (year d) (month d)" by (auto simp: valid_date_def)
  show ?thesis
  proof (cases "day d < days_in_month (year d) (month d) \<or> month d < 12 \<or> year d < 9999")
    case True
    then show ?thesis by (auto simp: plus_one_day_def)
  next
    case False
    with v have "year d = 9999" "month d = 12" "day d = 31"
      using days_in_month_12[of "year d"] by auto
    with assms(2) show ?thesis by simp
  qed
qed

lemma minus_one_day_valid:
  assumes "valid_date d" and "minus_one_day d = Inr d'"
  shows "valid_date d'" and "plus_one_day d' = Inr d"
    and "(year d', month d', day d') < (year d, month d, day d)"
    and "hour d' = hour d" "minute d' = minute d" "second d' = second d" "microsecond d' = microsecond d"
proof -
  from assms(1) have v: "1 \<le> year d" "year d \<le> 9999" "1 \<le> month d" "month d \<le> 12" "1 \<le> day d"
    "day d \<le> days_in_month (year d) (month d)" by (auto simp: valid_date_def)
  note dim = days_in_month_le[of "year d" "month d - 1"] days_in_month_ge[of "year d" "month d - 1"]
    days_in_month_12[of "year d - 1"]
  consider (a) "1 < day d" "d' = d\<lparr>day := day d - 1\<rparr>"
    | (b) "\<not> 1 < day d" "1 < month d"
          "d' = d\<lparr>month := month d - 1, day := days_in_month (year d) (month d - 1)\<rparr>"
    | (c) "\<not> 1 < day d" "\<not> 1 < month d" "1 < year d" "d' = d\<lparr>year := year d - 1, month := 12, day := 31\<rparr>"
    using assms(2) by (auto simp: minus_one_day_def split: if_splits)
  then have "valid_date d' \<and> plus_one_day d' = Inr d \<and>
      (year d', month d', day d') < (year d, month d, day d) \<and>
      hour d' = hour d \<and> minute d' = minute d \<and> second d' = second d \<and> microsecond d' = microsecond d"
  proof cases
    case a
    with v have "day d - 1 < days_in_month (year d) (month d)" "1 \<le> day d - 1" by linarith+
    with a v show ?thesis by (simp add: valid_date_def plus_one_day_def)
  next
    case b
    with v have e: "day d = 1" by linarith
    from b v have m: "month d - 1 < 12" "1 \<le> month d - 1" "month d - 1 + 1 = month d"
      "month d - 1 < month d" by linarith+
    have "d\<lparr>month := month d, day := 1\<rparr> = d" using e by simp
    with v dim m show ?thesis by (simp add: valid_date_def plus_one_day_def b(3) e)
  next
    case c
    with v have e: "day d = 1" "month d = 1" by linarith+
    from c v have m: "year d - 1 < 9999" "1 \<le> year d - 1" "year d - 1 + 1 = year d"
      "year d - 1 < year d" by linarith+
    have "d\<lparr>year := year d, month := 1, day := 1\<rparr> = d" using e by simp
    with v dim m show ?thesis by (simp add: valid_date_def plus_one_day_def c(4) e)
  qed
  then show "valid_date d'" and "plus_one_day d' = Inr d"
    and "(year d', month d', day d') < (year d, month d, day d)"
    and "hour d' = hour d" "minute d' = minute d" "second d' = second d" "microsecond d' = microsecond d"
    by simp_all
qed

lemma minus_one_day_ok:
  assumes "valid_date d" and "(y0, 1, 1) < (year d, month d, day d)" and "1 \<le> y0"
  shows "\<exists>d'. minus_one_day d = Inr d' \<and> y0 \<le> year d'"
proof -
  from assms(1) have v: "1 \<le> year d" "1 \<le> month d" "1 \<le> day d" by (auto simp: valid_date_def)
  show ?thesis
  proof (cases "1 < day d \<or> 1 < month d")
    case True
    with assms(2) show ?thesis by (auto simp: minus_one_day_def)
  next
    case False
    with v have "month d = 1" "day d = 1" by auto
    with assms(2,3) have "y0 < year d" by simp
    with assms(3) False show ?thesis by (auto simp: minus_one_day_def)
  qed
qed


subsection \<open>The shift that contains a datetime\<close>

lemma plus_one_day_midnight:
  "plus_one_day d = Inr d' \<Longrightarrow> plus_one_day (midnight d) = Inr (midnight d')"
  by (auto simp: plus_one_day_def midnight_def split: if_splits)

lemma valid_date_midnight: "valid_date (midnight d) = valid_date d"
  by (simp add: valid_date_def midnight_def)

lemma get_shift_boundaries_morning:
  assumes "valid_date d" and "zero_pad \<or> 1000 \<le> year d"
  shows "get_shift_boundaries (format_date zero_pad d @ ''_morning'') =
     Inr ((midnight d)\<lparr>hour := 7, minute := 30\<rparr>, (midnight d)\<lparr>hour := 19, minute := 30\<rparr>)"
  using strptime_format_date[OF assms]
  by (simp add: get_shift_boundaries_def rsplit1_key midnight_def MORNING_START_def MORNING_END_def)

lemma get_shift_boundaries_evening:
  assumes "valid_date d" and "zero_pad \<or> 1000 \<le> year d" and "plus_one_day (midnight d) = Inr n"
  shows "get_shift_boundaries (format_date zero_pad d @ ''_evening'') =
     Inr ((midnight d)\<lparr>hour := 19, minute := 30\<rparr>, n\<lparr>hour := 7, minute := 30\<rparr>)"
  using strptime_format_date[OF assms(1,2)] assms(3)
  by (simp add: get_shift_boundaries_def rsplit1_key midnight_def EVENING_START_def EVENING_END_def)


lemma shift_at_morning:
  assumes v: "valid_datetime cur" and lo: "dt_le (earliest_start zp) cur"
    and tv: "450 \<le> hour cur * 60 + minute cur" "hour cur * 60 + minute cur < 1170"
  shows "shift_at zp cur to =
     Inr \<lparr>s_key = format_date zp cur @ ''_morning'',
          s_label = get_shift_label (format_date zp cur @ ''_morning''),
          s_from_dt = (midnight cur)\<lparr>hour := 7, minute := 30\<rparr>,
          s_to_dt = (midnight cur)\<lparr>hour := 19, minute := 30\<rparr>,
          s_actual_from = dt_max cur ((midnight cur)\<lparr>hour := 7, minute := 30\<rparr>),
          s_actual_to = dt_min to ((midnight cur)\<lparr>hour := 19, minute := 30\<rparr>)\<rparr>"
proof -
  from v have vd: "valid_date cur" by (simp add: valid_datetime_def)
  from lo have y: "zp \<or> 1000 \<le> year cur"
    by (auto simp: dt_le_def dt_key_def earliest_start_def mk_dt_def split: if_splits)
  have t: "get_shift_type cur = ''morning''"
    using tv by (simp add: get_shift_type_def MORNING_START_def MORNING_END_def)
  have k: "get_shift_key zp cur ''morning'' = Inr (format_date zp cur @ ''_morning'')"
    by (simp add: get_shift_key_def)
  show ?thesis
    by (simp add: shift_at_def t k get_shift_boundaries_morning[OF vd y])
qed

lemma shift_at_late:
  assumes v: "valid_datetime cur" and lo: "dt_le (earliest_start zp) cur"
    and hi: "dt_less cur latest_end"
    and tv: "1170 \<le> hour cur * 60 + minute cur"
  shows "\<exists>n. plus_one_day cur = Inr n \<and> shift_at zp cur to =
     Inr \<lparr>s_key = format_date zp cur @ ''_evening'',
          s_label = get_shift_label (format_date zp cur @ ''_evening''),
          s_from_dt = (midnight cur)\<lparr>hour := 19, minute := 30\<rparr>,
          s_to_dt = (midnight n)\<lparr>hour := 7, minute := 30\<rparr>,
          s_actual_from = dt_max cur ((midnight cur)\<lparr>hour := 19, minute := 30\<rparr>),
          s_actual_to = dt_min to ((midnight n)\<lparr>hour := 7, minute := 30\<rparr>)\<rparr>"
proof -
  from v have vd: "valid_date cur" and mi: "minute cur < 60" by (simp_all add: valid_datetime_def)
  from lo have y: "zp \<or> 1000 \<le> year cur"
    by (auto simp: dt_le_def dt_key_def earliest_start_def mk_dt_def split: if_splits)
  from hi tv mi have "(year cur, month cur, day cur) < (9999, 12, 31)"
    by (auto simp: dt_less_def dt_key_def latest_end_def mk_dt_def)
  from plus_one_day_ok[OF vd this] obtain n where n: "plus_one_day cur = Inr n" by blast
  have t: "get_shift_type cur = ''evening''"
    using tv by (simp add: get_shift_type_def MORNING_START_def MORNING_END_def)
  have "\<not> (hour cur < 7 \<or> (hour cur = 7 \<and> minute cur < 30))" using tv mi by auto
  then have k: "get_shift_key zp cur ''evening'' = Inr (format_date zp cur @ ''_evening'')"
    by (auto simp: get_shift_key_def)
  show ?thesis
    by (rule exI[of _ n])
       (simp add: n shift_at_def t k get_shift_boundaries_evening[OF vd y plus_one_day_midnight[OF n]])
qed

lemma shift_at_early:
  assumes v: "valid_datetime cur" and lo: "dt_le (earliest_start zp) cur"
    and tv: "hour cur * 60 + minute cur < 450"
  shows "\<exists>p. minus_one_day cur = Inr p \<and> shift_at zp cur to =
     Inr \<lparr>s_key = format_date zp p @ ''_evening'',
          s_label = get_shift_label (format_date zp p @ ''_evening''),
          s_from_dt = (midnight p)\<lparr>hour := 19, minute := 30\<rparr>,
          s_to_dt = (midnight cur)\<lparr>hour := 7, minute := 30\<rparr>,
          s_actual_from = dt_max cur ((midnight p)\<lparr>hour := 19, minute := 30\<rparr>),
          s_actual_to = dt_min to ((midnight cur)\<lparr>hour := 7, minute := 30\<rparr>)\<rparr>"
proof -
  from v have vd: "valid_date cur" and mi: "minute cur < 60" by (simp_all add: valid_datetime_def)
  define y0 :: nat where "y0 = (if zp then 1 else 1000)"
  have y0: "1 \<le> y0" by (simp add: y0_def)
  from lo tv mi have "(y0, 1, 1) < (year cur, month cur, day cur)"
    by (auto simp: dt_le_def dt_key_def earliest_start_def mk_dt_def y0_def split: if_splits)
  from minus_one_day_ok[OF vd this y0] obtain p where p: "minus_one_day cur = Inr p" "y0 \<le> year p"
    by blast
  then have y: "zp \<or> 1000 \<le> year p" by (auto simp: y0_def split: if_splits)
  note mv = minus_one_day_valid[OF vd p(1)]
  have t: "get_shift_type cur = ''evening''"
    using tv by (simp add: get_shift_type_def MORNING_START_def MORNING_END_def)
  have "hour cur < 7 \<or> (hour cur = 7 \<and> minute cur < 30)" using tv by linarith
  then have k: "get_shift_key zp cur ''evening'' = Inr (format_date zp p @ ''_evening'')"
    by (auto simp: get_shift_key_def p(1))
  show ?thesis
    by (rule exI[of _ p])
       (simp add: p shift_at_def t k get_shift_boundaries_evening[OF mv(1) y plus_one_day_midnight[OF mv(2)]])
qed


lemma shift_at_props:
  assumes v: "valid_datetime cur" and lo: "dt_le (earliest_start zp) cur"
    and hi: "dt_less cur latest_end"
  shows "\<exists>sh. shift_at zp cur to = Inr sh \<and> dt_le (s_from_dt sh) cur \<and> dt_less cur (s_to_dt sh) \<and>
     valid_datetime (s_to_dt sh) \<and> slot cur < slot (s_to_dt sh) \<and>
     s_actual_from sh = dt_max cur (s_from_dt sh) \<and> s_actual_to sh = dt_min to (s_to_dt sh)"
proof -
  from v have vd: "valid_date cur" and f: "hour cur < 24" "minute cur < 60"
    by (simp_all add: valid_datetime_def)
  consider (m) "450 \<le> hour cur * 60 + minute cur" "hour cur * 60 + minute cur < 1170"
    | (l) "1170 \<le> hour cur * 60 + minute cur" | (e) "hour cur * 60 + minute cur < 450"
    by linarith
  then show ?thesis
  proof cases
    case m
    note sa = shift_at_morning[OF v lo m, of to]
    from m f have h: "7 \<le> hour cur" "hour cur = 7 \<longrightarrow> 30 \<le> minute cur"
      "hour cur \<le> 19" "hour cur = 19 \<longrightarrow> minute cur < 30" by linarith+
    have 1: "dt_le ((midnight cur)\<lparr>hour := 7, minute := 30\<rparr>) cur"
      using h by (auto simp: dt_le_def dt_key_def midnight_def)
    have 2: "dt_less cur ((midnight cur)\<lparr>hour := 19, minute := 30\<rparr>)"
      using h by (auto simp: dt_less_def dt_key_def midnight_def)
    have 3: "valid_datetime ((midnight cur)\<lparr>hour := 19, minute := 30\<rparr>)"
      using vd by (simp add: valid_datetime_def valid_date_def midnight_def)
    have 4: "slot cur < slot ((midnight cur)\<lparr>hour := 19, minute := 30\<rparr>)"
      using m by (simp add: slot_def day_rank_def midnight_def)
    show ?thesis using 1 2 3 4 by (simp add: sa)
  next
    case l
    from shift_at_late[OF v lo hi l, of to] obtain n where n: "plus_one_day cur = Inr n"
      and sa: "shift_at zp cur to =
        Inr \<lparr>s_key = format_date zp cur @ ''_evening'',
          s_label = get_shift_label (format_date zp cur @ ''_evening''),
          s_from_dt = (midnight cur)\<lparr>hour := 19, minute := 30\<rparr>,
          s_to_dt = (midnight n)\<lparr>hour := 7, minute := 30\<rparr>,
          s_actual_from = dt_max cur ((midnight cur)\<lparr>hour := 19, minute := 30\<rparr>),
          s_actual_to = dt_min to ((midnight n)\<lparr>hour := 7, minute := 30\<rparr>)\<rparr>"
      by blast
    note pv = plus_one_day_valid[OF vd n]
    from l f have h: "19 \<le> hour cur" "hour cur = 19 \<longrightarrow> 30 \<le> minute cur" by linarith+
    have 1: "dt_le ((midnight cur)\<lparr>hour := 19, minute := 30\<rparr>) cur"
      using h by (auto simp: dt_le_def dt_key_def midnight_def)
    have 2: "dt_less cur ((midnight n)\<lparr>hour := 7, minute := 30\<rparr>)"
      using pv(3) by (auto simp: dt_less_def dt_key_def midnight_def)
    have 3: "valid_datetime ((midnight n)\<lparr>hour := 7, minute := 30\<rparr>)"
      using pv(1) by (simp add: valid_datetime_def valid_date_def midnight_def)
    have 4: "slot cur < slot ((midnight n)\<lparr>hour := 7, minute := 30\<rparr>)"
      using pv(2) by (simp add: slot_def day_rank_def midnight_def)
    show ?thesis using 1 2 3 4 by (simp add: sa)
  next
    case e
    from shift_at_early[OF v lo e, of to] obtain p where p: "minus_one_day cur = Inr p"
      and sa: "shift_at zp cur to =
        Inr \<lparr>s_key = format_date zp p @ ''_evening'',
          s_label = get_shift_label (format_date zp p @ ''_evening''),
          s_from_dt = (midnight p)\<lparr>hour := 19, minute := 30\<rparr>,
          s_to_dt = (midnight cur)\<lparr>hour := 7, minute := 30\<rparr>,
          s_actual_from = dt_max cur ((midnight p)\<lparr>hour := 19, minute := 30\<rparr>),
          s_actual_to = dt_min to ((midnight cur)\<lparr>hour := 7, minute := 30\<rparr>)\<rparr>"
      by blast
    note mv = minus_one_day_valid[OF vd p]
    from e f have h: "hour cur \<le> 7" "hour cur = 7 \<longrightarrow> minute cur < 30" by linarith+
    have 1: "dt_le ((midnight p)\<lparr>hour := 19, minute := 30\<rparr>) cur"
      using mv(3) by (auto simp: dt_le_def dt_key_def midnight_def)
    have 2: "dt_less cur ((midnight cur)\<lparr>hour := 7, minute := 30\<rparr>)"
      using h by (auto simp: dt_less_def dt_key_def midnight_def)
    have 3: "valid_datetime ((midnight cur)\<lparr>hour := 7, minute := 30\<rparr>)"
      using vd by (simp add: valid_datetime_def valid_date_def midnight_def)
    have 4: "slot cur < slot ((midnight cur)\<lparr>hour := 7, minute := 30\<rparr>)"
      using e by (simp add: slot_def day_rank_def midnight_def)
    show ?thesis using 1 2 3 4 by (simp add: sa)
  qed
qed


subsection \<open>The order of datetimes\<close>

lemma dt_less_le: "dt_less a b \<Longrightarrow> dt_le a b"
  by (simp add: dt_less_def dt_le_def)

lemma dt_le_less_trans: "dt_le a b \<Longrightarrow> dt_less b c \<Longrightarrow> dt_less a c"
  unfolding dt_less_def dt_le_def by (rule le_less_trans)

lemma dt_less_le_trans: "dt_less a b \<Longrightarrow> dt_le b c \<Longrightarrow> dt_less a c"
  unfolding dt_less_def dt_le_def by (rule less_le_trans)

lemma dt_le_trans: "dt_le a b \<Longrightarrow> dt_le b c \<Longrightarrow> dt_le a c"
  unfolding dt_le_def by (rule order_trans)

lemma dt_not_less: "(\<not> dt_less a b) = dt_le b a"
  unfolding dt_less_def dt_le_def by (rule not_less)

lemma dt_le_refl: "dt_le a a"
  by (simp add: dt_le_def)

lemma dt_less_irrefl: "\<not> dt_less a a"
  by (simp add: dt_less_def)

lemma dt_le_antisym: "dt_le a b \<Longrightarrow> dt_le b a \<Longrightarrow> a = b"
proof -
  assume "dt_le a b" "dt_le b a"
  then have "dt_key a = dt_key b" unfolding dt_le_def by (rule order_antisym)
  then show "a = b" by (simp add: dt_key_def)
qed

lemma slot_le_bound: "valid_datetime d \<Longrightarrow> slot d \<le> 3 * ((9999 * 13 + 12) * 32 + 31) + 2"
proof -
  assume "valid_datetime d"
  then have "year d \<le> 9999" "month d \<le> 12" "day d \<le> 31"
    using days_in_month_le[of "year d" "month d"] by (auto simp: valid_datetime_def valid_date_def)
  then have "day_rank d \<le> (9999 * 13 + 12) * 32 + 31"
    unfolding day_rank_def by (intro add_mono mult_le_mono) simp_all
  then show ?thesis by (simp add: slot_def)
qed


subsection \<open>The loop\<close>

lemma split_loop_tiles:
  "valid_datetime cur \<Longrightarrow> dt_le (earliest_start zp) cur \<Longrightarrow> dt_less cur to \<Longrightarrow>
   dt_le to latest_end \<Longrightarrow>
   \<exists>ss. split_loop zp cur to acc = Some (Inr (acc @ ss)) \<and> tiles cur to ss"
proof (induction "3 * ((9999 * 13 + 12) * 32 + 31) + 2 - slot cur" arbitrary: cur acc rule: less_induct)
  case less
  note v = less.prems(1) and lo = less.prems(2) and lt = less.prems(3) and hi = less.prems(4)
  from shift_at_props[OF v lo dt_less_le_trans[OF lt hi], of to]
  obtain sh where sh: "shift_at zp cur to = Inr sh" "dt_le (s_from_dt sh) cur"
    "dt_less cur (s_to_dt sh)" "valid_datetime (s_to_dt sh)" "slot cur < slot (s_to_dt sh)"
    "s_actual_from sh = dt_max cur (s_from_dt sh)" "s_actual_to sh = dt_min to (s_to_dt sh)"
    by blast
  have "\<not> dt_less cur (s_from_dt sh)" using sh(2) by (simp add: dt_not_less)
  then have af: "s_actual_from sh = cur"
    using sh(6) by (simp add: dt_max_def)
  have lt2: "dt_less cur (s_actual_to sh)"
    using sh(3,7) lt by (simp add: dt_min_def)
  have step: "split_loop zp cur to acc = split_loop zp (s_to_dt sh) to (acc @ [sh])"
    using lt sh(1) af lt2 by (subst split_loop.simps) simp
  show ?case
  proof (cases "dt_less (s_to_dt sh) to")
    case True
    have m: "3 * ((9999 * 13 + 12) * 32 + 31) + 2 - slot (s_to_dt sh)
           < 3 * ((9999 * 13 + 12) * 32 + 31) + 2 - slot cur"
      using sh(5) slot_le_bound[OF sh(4)] by linarith
    have lo': "dt_le (earliest_start zp) (s_to_dt sh)"
      using lo sh(3) by (meson dt_le_less_trans dt_less_le)
    from less.hyps[OF m sh(4) lo' True hi, of "acc @ [sh]"]
    obtain ss where ss: "split_loop zp (s_to_dt sh) to (acc @ [sh]) = Some (Inr ((acc @ [sh]) @ ss))"
      "tiles (s_to_dt sh) to ss" by blast
    have at: "s_actual_to sh = s_to_dt sh" using True sh(7) by (simp add: dt_min_def)
    show ?thesis
      by (rule exI[of _ "sh # ss"]) (use step ss af lt2 at in simp)
  next
    case False
    then have at: "s_actual_to sh = to" using sh(7) by (simp add: dt_min_def)
    have "split_loop zp (s_to_dt sh) to (acc @ [sh]) = Some (Inr (acc @ [sh]))"
      using False by (subst split_loop.simps) simp
    then show ?thesis
      by (intro exI[of _ "[sh]"]) (use step af lt2 at in simp)
  qed
qed


subsection \<open>Tilings\<close>

lemma tiles_le: "tiles a b ss \<Longrightarrow> dt_le a b"
proof (induction ss arbitrary: a)
  case Nil
  then show ?case by (simp add: dt_le_refl)
next
  case (Cons s ss)
  then have "dt_less a (s_actual_to s)" "dt_le (s_actual_to s) b" by auto
  then show ?case by (meson dt_less_le_trans dt_less_le)
qed

lemma tiles_ends:
  "tiles a b ss \<Longrightarrow> ss \<noteq> [] \<Longrightarrow> s_actual_from (hd ss) = a \<and> s_actual_to (last ss) = b"
proof (induction ss arbitrary: a)
  case Nil
  then show ?case by simp
next
  case (Cons s ss)
  then show ?case by (cases "ss = []") auto
qed

lemma tiles_within:
  "tiles a b ss \<Longrightarrow> s \<in> set ss \<Longrightarrow>
   dt_le a (s_actual_from s) \<and> dt_less (s_actual_from s) (s_actual_to s) \<and> dt_le (s_actual_to s) b"
proof (induction ss arbitrary: a)
  case Nil
  then show ?case by simp
next
  case (Cons x ss)
  from Cons.prems(1) have x: "s_actual_from x = a" "dt_less a (s_actual_to x)" "tiles (s_actual_to x) b ss"
    by auto
  show ?case
  proof (cases "s = x")
    case True
    with x tiles_le[OF x(3)] show ?thesis by (simp add: dt_le_refl)
  next
    case False
    with Cons.prems(2) have "s \<in> set ss" by simp
    from Cons.IH[OF x(3) this] x(2) show ?thesis
      by (meson dt_less_le_trans dt_less_le)
  qed
qed

lemma tiles_contiguous:
  "tiles a b ss \<Longrightarrow> Suc i < length ss \<Longrightarrow> s_actual_to (ss ! i) = s_actual_from (ss ! Suc i)"
proof (induction ss arbitrary: a i)
  case Nil
  then show ?case by simp
next
  case (Cons x ss)
  from Cons.prems(1) have x: "tiles (s_actual_to x) b ss" by simp
  show ?case
  proof (cases i)
    case 0
    with Cons.prems(2) have "ss \<noteq> []" by auto
    from tiles_ends[OF x this] 0 show ?thesis by (simp add: hd_conv_nth \<open>ss \<noteq> []\<close>)
  next
    case (Suc k)
    with Cons.prems(2) Cons.IH[OF x, of k] show ?thesis by simp
  qed
qed

lemma tiles_ordered:
  "tiles a b ss \<Longrightarrow> i < j \<Longrightarrow> j < length ss \<Longrightarrow> dt_le (s_actual_to (ss ! i)) (s_actual_from (ss ! j))"
proof (induction ss arbitrary: a i j)
  case Nil
  then show ?case by simp
next
  case (Cons x ss)
  from Cons.prems(1) have x: "tiles (s_actual_to x) b ss" by simp
  from Cons.prems(2) obtain j' where j: "j = Suc j'" by (cases j) auto
  show ?case
  proof (cases i)
    case 0
    from Cons.prems(3) j have "ss ! j' \<in> set ss" by simp
    from tiles_within[OF x this] 0 j show ?thesis by simp
  next
    case (Suc k)
    with Cons.prems(2,3) j Cons.IH[OF x, of k j'] show ?thesis by simp
  qed
qed

lemma tiles_union:
  "tiles a b ss \<Longrightarrow>
   (\<exists>s\<in>set ss. dt_le (s_actual_from s) t \<and> dt_less t (s_actual_to s)) = (dt_le a t \<and> dt_less t b)"
proof (induction ss arbitrary: a)
  case Nil
  then show ?case by (auto simp: dt_le_def dt_less_def)
next
  case (Cons x ss)
  from Cons.prems have x: "s_actual_from x = a" "dt_less a (s_actual_to x)" "tiles (s_actual_to x) b ss"
    by auto
  from Cons.IH[OF x(3)] x(1,2) tiles_le[OF x(3)] show ?case
    by (auto simp: dt_le_def dt_less_def)
qed


subsection \<open>Evaluating the splitter on concrete periods\<close>

lemma digit_char_simps:
  "digit_char 0 = CHR ''0''" "digit_char 1 = CHR ''1''" "digit_char 2 = CHR ''2''"
  "digit_char 3 = CHR ''3''" "digit_char 4 = CHR ''4''" "digit_char 5 = CHR ''5''"
  "digit_char 6 = CHR ''6''" "digit_char 7 = CHR ''7''" "digit_char 8 = CHR ''8''"
  "digit_char 9 = CHR ''9''" "digit_char (Suc 0) = CHR ''1''"
  by code_simp+

lemmas shift_eval =
  split_period_into_shifts_def split_loop.simps shift_at_def get_shift_type_def get_shift_key_def
  get_shift_boundaries_def get_shift_label_def mk_dt_def dt_less_def dt_le_def dt_key_def
  dt_max_def dt_min_def format_date_def pad2_def strftime_Y_def show_nat.simps digit_char_simps
  rsplit1_def strptime_def fmt_dmY_def strptime_default_def dig_def MORNING_START_def
  MORNING_END_def EVENING_START_def EVENING_END_def plus_one_day_def minus_one_day_def
  days_in_month_def is_leap_def Let_def shift_windows_def label_morning_def label_evening_def

subsection \<open>The splitter covers the period\<close>

text \<open>
  C1 (as the code has it). For every pair of naive datetimes \<open>from_dt < to_dt\<close> with
  \<open>from_dt\<close> not before 07:30 of the first day whose year \<open>strftime\<close> writes with four
  digits (year 1, or year 1000 where \<open>%Y\<close> is not zero-padded) and \<open>to_dt\<close> not after 19:30
  of 9999-12-31, the splitter returns a non-empty list of shifts whose clipped windows
  are non-empty, ordered, contiguous and non-overlapping, start at \<open>from_dt\<close>, end at
  \<open>to_dt\<close>, and whose union is exactly the half-open period from \<open>from_dt\<close> to \<open>to_dt\<close>.
\<close>

theorem split_period_covers:
  assumes "valid_datetime from_dt" and "dt_less from_dt to_dt"
    and "dt_le (earliest_start zero_pad) from_dt" and "dt_le to_dt latest_end"
  shows "\<exists>shifts. split_period_into_shifts zero_pad from_dt to_dt = Some (Inr shifts)
     \<and> shifts \<noteq> []
     \<and> s_actual_from (hd shifts) = from_dt \<and> s_actual_to (last shifts) = to_dt
     \<and> (\<forall>i<length shifts. dt_less (s_actual_from (shifts ! i)) (s_actual_to (shifts ! i)))
     \<and> (\<forall>i. Suc i < length shifts \<longrightarrow>
            s_actual_to (shifts ! i) = s_actual_from (shifts ! Suc i))
     \<and> (\<forall>i j. i < j \<and> j < length shifts \<longrightarrow>
            dt_le (s_actual_to (shifts ! i)) (s_actual_from (shifts ! j)))
     \<and> (\<forall>t. (\<exists>s\<in>set shifts. dt_le (s_actual_from s) t \<and> dt_less t (s_actual_to s)) =
              (dt_le from_dt t \<and> dt_less t to_dt))"
proof -
  from split_loop_tiles[OF assms(1,3,2,4), of "[]"]
  obtain ss where ss: "split_period_into_shifts zero_pad from_dt to_dt = Some (Inr ss)"
    "tiles from_dt to_dt ss"
    by (auto simp: split_period_into_shifts_def)
  have ne: "ss \<noteq> []"
  proof
    assume "ss = []"
    with ss(2) have "from_dt = to_dt" by simp
    with assms(2) show False by (simp add: dt_less_irrefl)
  qed
  have w: "\<forall>i<length ss. dt_less (s_actual_from (ss ! i)) (s_actual_to (ss ! i))"
    using tiles_within[OF ss(2)] by simp
  show ?thesis
    apply (rule exI[of _ ss])
    apply (intro conjI)
          apply (rule ss(1))
         apply (rule ne)
        apply (simp add: tiles_ends[OF ss(2) ne])
       apply (simp add: tiles_ends[OF ss(2) ne])
      apply (rule w)
     apply (simp add: tiles_contiguous[OF ss(2)])
    apply (simp add: tiles_ordered[OF ss(2)])
    apply (simp add: tiles_union[OF ss(2)])
    done
qed


text \<open>The theorem at the period from 25.01.2026 08:00 to 26.01.2026 08:00.\<close>

theorem split_period_covers_witness:
  "valid_datetime (mk_dt 2026 1 25 8 0) \<and> dt_less (mk_dt 2026 1 25 8 0) (mk_dt 2026 1 26 8 0) \<and>
   dt_le (earliest_start False) (mk_dt 2026 1 25 8 0) \<and> dt_le (mk_dt 2026 1 26 8 0) latest_end \<and>
   (\<exists>shifts. split_period_into_shifts False (mk_dt 2026 1 25 8 0) (mk_dt 2026 1 26 8 0) =
        Some (Inr shifts)
     \<and> shifts \<noteq> []
     \<and> s_actual_from (hd shifts) = mk_dt 2026 1 25 8 0
     \<and> s_actual_to (last shifts) = mk_dt 2026 1 26 8 0
     \<and> (\<forall>i<length shifts. dt_less (s_actual_from (shifts ! i)) (s_actual_to (shifts ! i)))
     \<and> (\<forall>i. Suc i < length shifts \<longrightarrow>
            s_actual_to (shifts ! i) = s_actual_from (shifts ! Suc i))
     \<and> (\<forall>i j. i < j \<and> j < length shifts \<longrightarrow>
            dt_le (s_actual_to (shifts ! i)) (s_actual_from (shifts ! j)))
     \<and> (\<forall>t. (\<exists>s\<in>set shifts. dt_le (s_actual_from s) t \<and> dt_less t (s_actual_to s)) =
              (dt_le (mk_dt 2026 1 25 8 0) t \<and> dt_less t (mk_dt 2026 1 26 8 0))))"
proof -
  have a: "valid_datetime (mk_dt 2026 1 25 8 0)"
    by (simp add: valid_datetime_def valid_date_def mk_dt_def days_in_month_def)
  have b: "dt_less (mk_dt 2026 1 25 8 0) (mk_dt 2026 1 26 8 0)"
    by (simp add: dt_less_def dt_key_def mk_dt_def)
  have c: "dt_le (earliest_start False) (mk_dt 2026 1 25 8 0)"
    by (simp add: dt_le_def dt_key_def mk_dt_def earliest_start_def)
  have d: "dt_le (mk_dt 2026 1 26 8 0) latest_end"
    by (simp add: dt_le_def dt_key_def mk_dt_def latest_end_def)
  from split_period_covers[OF a b c d] a b c d show ?thesis by blast
qed

text \<open>
  C1 as stated fails at the upper end of the range of \<open>datetime\<close>: for the valid
  datetimes 9999-12-31 20:00 and 21:00 the end of the evening shift is not a date, and
  the splitter raises \<open>OverflowError\<close> instead of returning shifts.
\<close>

theorem split_period_overflow:
  "valid_datetime (mk_dt 9999 12 31 20 0) \<and> valid_datetime (mk_dt 9999 12 31 21 0) \<and>
   dt_less (mk_dt 9999 12 31 20 0) (mk_dt 9999 12 31 21 0) \<and>
   split_period_into_shifts False (mk_dt 9999 12 31 20 0) (mk_dt 9999 12 31 21 0) =
     Some (Inl (OverflowError ''date value out of range'')) \<and>
   split_period_into_shifts True (mk_dt 9999 12 31 20 0) (mk_dt 9999 12 31 21 0) =
     Some (Inl (OverflowError ''date value out of range''))"
proof -
  have "valid_datetime (mk_dt 9999 12 31 20 0)" "valid_datetime (mk_dt 9999 12 31 21 0)"
    by (simp_all add: valid_datetime_def valid_date_def mk_dt_def days_in_month_def)
  moreover have "dt_less (mk_dt 9999 12 31 20 0) (mk_dt 9999 12 31 21 0)"
    by (simp add: dt_less_def dt_key_def mk_dt_def)
  moreover have "split_period_into_shifts False (mk_dt 9999 12 31 20 0) (mk_dt 9999 12 31 21 0) =
     Some (Inl (OverflowError ''date value out of range''))"
    by (simp add: shift_eval)
  moreover have "split_period_into_shifts True (mk_dt 9999 12 31 20 0) (mk_dt 9999 12 31 21 0) =
     Some (Inl (OverflowError ''date value out of range''))"
    by (simp add: shift_eval)
  ultimately show ?thesis by simp
qed

subsection \<open>The example period\<close>

text \<open>
  C6. Splitting the period from 25.01.2026 08:00 to 26.01.2026 08:00 yields exactly three
  shifts: \<open>25.01.2026_morning\<close> clipped to 25.01 08:00 -- 19:30, \<open>25.01.2026_evening\<close>
  clipped to 25.01 19:30 -- 26.01 07:30, and \<open>26.01.2026_morning\<close> clipped to
  26.01 07:30 -- 08:00. The key of the evening shift bears the date on which it starts.
\<close>

theorem split_example_three_shifts:
  "shift_windows
     (split_period_into_shifts zero_pad (mk_dt 2026 1 25 8 0) (mk_dt 2026 1 26 8 0)) =
   Some (Inr [(''25.01.2026_morning'', mk_dt 2026 1 25 8 0, mk_dt 2026 1 25 19 30),
              (''25.01.2026_evening'', mk_dt 2026 1 25 19 30, mk_dt 2026 1 26 7 30),
              (''26.01.2026_morning'', mk_dt 2026 1 26 7 30, mk_dt 2026 1 26 8 0)])"
  by (cases zero_pad) (simp_all add: shift_eval)

section \<open>The monitoring parser\<close>

text \<open>
  C10. For every track with at most two points (the empty and the single-point track
  included) \<open>_simplify_track\<close> returns its input unchanged, whatever the interval and
  whether or not the times of the points can be parsed: no time is looked at.
\<close>

theorem simplify_track_short:
  "length track \<le> 2 \<Longrightarrow> simplify_track track interval_minutes = Inr track"
  by (simp add: simplify_track_def)

text \<open>
  The theorem at a track of two points whose times are a string that is no date and a
  number, at the empty track and at a track of one point.
\<close>

theorem simplify_track_short_witness:
  "length two_points \<le> 2 \<and> simplify_track two_points 20 = Inr two_points \<and>
   simplify_track [] 0 = Inr [] \<and> simplify_track [hd two_points] (- 3) = Inr [hd two_points]"
  using simplify_track_short[of two_points 20] simplify_track_short[of "[]" 0]
    simplify_track_short[of "[hd two_points]" "- 3"]
  by (simp add: two_points_def)

lemma time_hours_zero: "is_zero v \<Longrightarrow> time_hours ops v = Inr JNull"
  by (cases v) (auto simp: time_hours_def)

lemma parse_monitoring_hours:
  assumes "parse_monitoring ops (JDict kvs) = Inr r" and "kvs \<noteq> []"
  shows "time_hours ops (dict_get kvs ''movingTime'' JNull) = Inr (mon_moving_time_hours r)"
    and "time_hours ops (dict_get kvs ''engineTime'' JNull) = Inr (mon_engine_time_hours r)"
    and "time_hours ops (dict_get kvs ''engineIdlingTime'' JNull) = Inr (mon_idling_time_hours r)"
  using assms
  by (auto simp: parse_monitoring_def Let_def split: sum.splits prod.splits)

lemma parse_monitoring_empty: "parse_monitoring ops (JDict []) = Inr empty_monitoring"
  by (simp add: parse_monitoring_def)

lemma parkings_of_none: "\<not> truthy (dict_get kvs ''parkings'' (JList [])) \<Longrightarrow> parkings_of ops kvs = Inr ([], JInt 0)"
  by (cases "dict_get kvs ''parkings'' (JList [])") (auto simp: parkings_of_def)

lemma track_of_none: "\<not> truthy (dict_get kvs ''track'' (JList [])) \<Longrightarrow> track_of kvs = Inr []"
  by (cases "dict_get kvs ''track'' (JList [])") (auto simp: track_of_def)

text \<open>
  C9. A time field that equals 0 is false, so its conversion to hours is skipped and
  yields null whatever the arithmetic: for every raw payload, whenever the parser
  returns, each of \<open>mon_moving_time_hours\<close>, \<open>mon_engine_time_hours\<close> and
  \<open>mon_idling_time_hours\<close> is null if the field it derives from (\<open>movingTime\<close>,
  \<open>engineTime\<close>, \<open>engineIdlingTime\<close>) equals 0; and the parser does return, with the three
  fields null, for every payload whose three time fields equal 0 and that has no parkings
  and no track.
\<close>

theorem zero_time_hours_null:
  "(is_zero v \<longrightarrow> time_hours ops v = Inr JNull) \<and>
   (parse_monitoring ops (JDict kvs) = Inr r \<longrightarrow>
      (is_zero (dict_get kvs ''movingTime'' JNull) \<longrightarrow> mon_moving_time_hours r = JNull) \<and>
      (is_zero (dict_get kvs ''engineTime'' JNull) \<longrightarrow> mon_engine_time_hours r = JNull) \<and>
      (is_zero (dict_get kvs ''engineIdlingTime'' JNull) \<longrightarrow> mon_idling_time_hours r = JNull)) \<and>
   (is_zero (dict_get kvs ''movingTime'' JNull) \<and> is_zero (dict_get kvs ''engineTime'' JNull) \<and>
    is_zero (dict_get kvs ''engineIdlingTime'' JNull) \<and>
    \<not> truthy (dict_get kvs ''parkings'' (JList [])) \<and> \<not> truthy (dict_get kvs ''track'' (JList [])) \<longrightarrow>
      (\<exists>r'. parse_monitoring ops (JDict kvs) = Inr r' \<and> mon_moving_time_hours r' = JNull \<and>
            mon_engine_time_hours r' = JNull \<and> mon_idling_time_hours r' = JNull))"
proof (intro conjI impI)
  assume "is_zero v"
  then show "time_hours ops v = Inr JNull" by (rule time_hours_zero)
next
  assume p: "parse_monitoring ops (JDict kvs) = Inr r" and z: "is_zero (dict_get kvs ''movingTime'' JNull)"
  show "mon_moving_time_hours r = JNull"
  proof (cases "kvs = []")
    case True
    with p have "r = empty_monitoring" by (simp add: parse_monitoring_empty)
    then show ?thesis by (simp add: empty_monitoring_def)
  next
    case False
    from parse_monitoring_hours(1)[OF p False] time_hours_zero[OF z] show ?thesis by simp
  qed
next
  assume p: "parse_monitoring ops (JDict kvs) = Inr r" and z: "is_zero (dict_get kvs ''engineTime'' JNull)"
  show "mon_engine_time_hours r = JNull"
  proof (cases "kvs = []")
    case True
    with p have "r = empty_monitoring" by (simp add: parse_monitoring_empty)
    then show ?thesis by (simp add: empty_monitoring_def)
  next
    case False
    from parse_monitoring_hours(2)[OF p False] time_hours_zero[OF z] show ?thesis by simp
  qed
next
  assume p: "parse_monitoring ops (JDict kvs) = Inr r"
    and z: "is_zero (dict_get kvs ''engineIdlingTime'' JNull)"
  show "mon_idling_time_hours r = JNull"
  proof (cases "kvs = []")
    case True
    with p have "r = empty_monitoring" by (simp add: parse_monitoring_empty)
    then show ?thesis by (simp add: empty_monitoring_def)
  next
    case False
    from parse_monitoring_hours(3)[OF p False] time_hours_zero[OF z] show ?thesis by simp
  qed
next
  assume a: "is_zero (dict_get kvs ''movingTime'' JNull) \<and> is_zero (dict_get kvs ''engineTime'' JNull) \<and>
    is_zero (dict_get kvs ''engineIdlingTime'' JNull) \<and>
    \<not> truthy (dict_get kvs ''parkings'' (JList [])) \<and> \<not> truthy (dict_get kvs ''track'' (JList []))"
  then show "\<exists>r'. parse_monitoring ops (JDict kvs) = Inr r' \<and> mon_moving_time_hours r' = JNull \<and>
            mon_engine_time_hours r' = JNull \<and> mon_idling_time_hours r' = JNull"
    by (cases "kvs = []")
       (simp_all add: parse_monitoring_def empty_monitoring_def time_hours_zero parkings_of_none
          track_of_none Let_def)
qed

text \<open>The theorem at a payload with \<open>movingTime = 0\<close>, \<open>engineTime = 0.0\<close>, \<open>engineIdlingTime = 0\<close>.\<close>

theorem zero_time_hours_null_witness:
  "is_zero (JInt 0) \<and> time_hours sample_ops (JInt 0) = Inr JNull \<and>
   zero_payload = JDict [(''moUid'', JStr ''u1''), (''distance'', JFloat (Fin 12)),
            (''movingTime'', JInt 0), (''engineTime'', JFloat (Fin 0)),
            (''engineIdlingTime'', JInt 0)] \<and>
   (\<exists>r. parse_monitoring sample_ops zero_payload = Inr r \<and> mon_moving_time_hours r = JNull \<and>
        mon_engine_time_hours r = JNull \<and> mon_idling_time_hours r = JNull \<and>
        mon_moving_time r = JInt 0 \<and> mon_engine_time r = JFloat (Fin 0))"
proof -
  let ?kvs = "[(''moUid'', JStr ''u1''), (''distance'', JFloat (Fin 12)),
            (''movingTime'', JInt 0), (''engineTime'', JFloat (Fin 0)),
            (''engineIdlingTime'', JInt 0)]"
  have h: "is_zero (dict_get ?kvs ''movingTime'' JNull) \<and> is_zero (dict_get ?kvs ''engineTime'' JNull) \<and>
    is_zero (dict_get ?kvs ''engineIdlingTime'' JNull) \<and>
    \<not> truthy (dict_get ?kvs ''parkings'' (JList [])) \<and> \<not> truthy (dict_get ?kvs ''track'' (JList []))"
    by (simp add: dict_get_def)
  from zero_time_hours_null[of "JInt 0" sample_ops ?kvs] h
  obtain r' where r: "parse_monitoring sample_ops (JDict ?kvs) = Inr r'" "mon_moving_time_hours r' = JNull"
     "mon_engine_time_hours r' = JNull" "mon_idling_time_hours r' = JNull" and t: "time_hours sample_ops (JInt 0) = Inr JNull"
    by auto
  have "mon_moving_time r' = JInt 0 \<and> mon_engine_time r' = JFloat (Fin 0)"
    using r(1) by (auto simp: parse_monitoring_def Let_def dict_get_def split: sum.splits prod.splits)
  with r t show ?thesis by (auto simp: zero_payload_def)
qed


section \<open>The task extractor\<close>












end
